theory Spec2Isabelle
  imports Complex_Main "HOL-Library.Word"
begin

unbundle bit_operations_syntax

section \<open>Data model\<close>

text \<open>
  The two parser packages (the JSON format and the line format) declare the same three
  types \<^verbatim>\<open>Tag\<close>, \<open>Row\<close> and \<open>Rows\<close> with the same \<^verbatim>\<open>reset\<close> and \<^verbatim>\<open>Reset\<close> methods,
  word for word; they are modelled once.

  A Go slice is a header (backing array, first index, length, capacity). The tag pool and
  the \<open>Tags\<close> views of the rows share backing arrays, so tag arrays live in an explicit
  store: \<open>arrays h a\<close> is the content of the array at address \<open>a\<close>, and \<open>brk h\<close> is the
  next address never handed out. Address 0 is the nil slice's.
\<close>

type_synonym int64 = "64 word"

record Tag =
  Key :: string
  Val :: string

record slice =
  ptr :: nat
  off :: nat
  len :: nat
  cap :: nat

record heap =
  arrays :: "nat \<Rightarrow> Tag list"
  brk :: nat

record 'f Row =
  Metric :: string
  Tags :: slice
  Value :: 'f
  Timestamp :: int64

text \<open>
  The row sequence \<^verbatim>\<open>[]Row\<close> is never reached through a second reference, so it is kept
  as a value: the backing array (its length is the capacity) and the length.
\<close>

record 'f rowslice =
  backing :: "'f Row list"
  rlen :: nat

record 'f Rows =
  Rows :: "'f rowslice"
  tagsPool :: slice

text \<open>
  A parsed document of the fastjson library; a number keeps its text, which the library
  decodes on demand.
\<close>

datatype json =
    TypeNull
  | TypeTrue
  | TypeFalse
  | TypeNumber string
  | TypeString string
  | TypeArray "json list"
  | TypeObject "(string \<times> json) list"

text \<open>
  A request body as an \<^verbatim>\<open>io.Reader\<close>: the bytes it still delivers, and the error it ends
  with once they are consumed (\<open>None\<close> for \<^verbatim>\<open>io.EOF\<close>).
\<close>

record reader =
  pending :: string
  failure :: "string option"

type_synonym 'f point = "(string \<times> string) list \<times> int64 \<times> 'f"

text \<open>
  What the code takes from outside the repository: Go's choice of the capacity of a grown
  slice, the conversion \<^verbatim>\<open>int64(f)\<close> of a float64, the product \<^verbatim>\<open>f * 1000\<close>, the number
  parsers and the document parser of the fastjson library, the gzip reader and the flush
  of the storage interface. They are parameters; \<open>'f\<close> stands for float64.
\<close>

record 'f lib =
  growcap :: "nat \<Rightarrow> nat"
  toInt64 :: "'f \<Rightarrow> int64"
  mul1000 :: "'f \<Rightarrow> 'f"
  ParseBestEffort :: "string \<Rightarrow> 'f"
  ParseInt64 :: "string \<Rightarrow> int64 option"
  ParseFloat64 :: "string \<Rightarrow> 'f option"
  ParseBytes :: "string \<Rightarrow> string + json"
  NewGzipReader :: "reader \<Rightarrow> string + reader"
  FlushBufs :: "'f point list \<Rightarrow> string option"

definition nil_slice :: slice where
  "nil_slice = \<lparr>ptr = 0, off = 0, len = 0, cap = 0\<rparr>"

definition zero_Tag :: Tag where
  "zero_Tag = \<lparr>Key = [], Val = []\<rparr>"

definition zero_Row :: "('f::zero) Row" where
  "zero_Row = \<lparr>Metric = [], Tags = nil_slice, Value = 0, Timestamp = 0\<rparr>"

definition empty_heap :: heap where
  "empty_heap = \<lparr>arrays = (\<lambda>a. []), brk = 1\<rparr>"

definition empty_Rows :: "('f::zero) Rows" where
  "empty_Rows = \<lparr>Rows = \<lparr>backing = [], rlen = 0\<rparr>, tagsPool = nil_slice\<rparr>"

subsection \<open>Slices of tags in the store\<close>

definition get_tag :: "heap \<Rightarrow> slice \<Rightarrow> nat \<Rightarrow> Tag" where
  "get_tag h s i = arrays h (ptr s) ! (off s + i)"

definition set_tag :: "heap \<Rightarrow> slice \<Rightarrow> nat \<Rightarrow> Tag \<Rightarrow> heap" where
  "set_tag h s i t = h\<lparr>arrays := (arrays h)(ptr s := (arrays h (ptr s))[off s + i := t])\<rparr>"

definition view :: "heap \<Rightarrow> slice \<Rightarrow> Tag list" where
  "view h s = take (len s) (drop (off s) (arrays h (ptr s)))"

definition newcap :: "'f lib \<Rightarrow> slice \<Rightarrow> nat" where
  "newcap L s = max (Suc (len s)) (growcap L (cap s))"

text \<open>\<^verbatim>\<open>append(dst, Tag{})\<close>: in place when there is room, else into a new array.\<close>

definition append_Tag :: "'f lib \<Rightarrow> heap \<Rightarrow> slice \<Rightarrow> heap \<times> slice" where
  "append_Tag L h dst =
     (if len dst < cap dst
      then (set_tag h dst (len dst) zero_Tag, dst\<lparr>len := Suc (len dst)\<rparr>)
      else (h\<lparr>arrays := (arrays h)(brk h :=
                 view h dst @ replicate (newcap L dst - len dst) zero_Tag),
              brk := Suc (brk h)\<rparr>,
            \<lparr>ptr = brk h, off = 0, len = Suc (len dst), cap = newcap L dst\<rparr>))"

text \<open>
  The idiom at the head of every loop body:
  \<^verbatim>\<open>if cap(dst) > len(dst) { dst = dst[:len(dst)+1] } else { dst = append(dst, Tag{}) }\<close>
\<close>

definition push_Tag :: "'f lib \<Rightarrow> heap \<Rightarrow> slice \<Rightarrow> heap \<times> slice" where
  "push_Tag L h dst =
     (if cap dst > len dst then (h, dst\<lparr>len := Suc (len dst)\<rparr>)
      else append_Tag L h dst)"

definition append_Row :: "'f lib \<Rightarrow> ('f::zero) rowslice \<Rightarrow> 'f rowslice" where
  "append_Row L dst =
     (if rlen dst < length (backing dst)
      then \<lparr>backing = (backing dst)[rlen dst := zero_Row], rlen = Suc (rlen dst)\<rparr>
      else \<lparr>backing = take (rlen dst) (backing dst) @
               replicate (max (Suc (rlen dst)) (growcap L (length (backing dst))) - rlen dst)
                 zero_Row,
             rlen = Suc (rlen dst)\<rparr>)"

definition push_Row :: "'f lib \<Rightarrow> ('f::zero) rowslice \<Rightarrow> 'f rowslice" where
  "push_Row L dst =
     (if length (backing dst) > rlen dst then dst\<lparr>rlen := Suc (rlen dst)\<rparr>
      else append_Row L dst)"

definition last_Row :: "'f rowslice \<Rightarrow> 'f Row" where
  "last_Row dst = backing dst ! (rlen dst - 1)"

definition set_last_Row :: "'f rowslice \<Rightarrow> 'f Row \<Rightarrow> 'f rowslice" where
  "set_last_Row dst r = dst\<lparr>backing := (backing dst)[rlen dst - 1 := r]\<rparr>"

definition rows_of :: "'f rowslice \<Rightarrow> 'f Row list" where
  "rows_of dst = take (rlen dst) (backing dst)"

section \<open>Reset\<close>

definition Tag_reset :: "Tag \<Rightarrow> Tag" where
  "Tag_reset t = t\<lparr>Key := [], Val := []\<rparr>"

definition Row_reset :: "('f::zero) Row \<Rightarrow> 'f Row" where
  "Row_reset r = r\<lparr>Metric := [], Tags := nil_slice, Value := 0, Timestamp := 0\<rparr>"

section \<open>The line format\<close>

datatype line_error =
    MissingPutPrefix string
  | NoSpaceMetricTimestamp string
  | NoSpaceTimestampValue string
  | NoSpaceValueTag string
  | CannotUnmarshalTags string line_error
  | CannotUnmarshalLine string line_error
  | MissingTagValue string
  | EmptyTagKey string

text \<open>\<^verbatim>\<open>strings.IndexByte\<close>: the first index of the byte, \<open>None\<close> for Go's \<open>-1\<close>.\<close>

fun IndexByte :: "string \<Rightarrow> char \<Rightarrow> nat option" where
  "IndexByte [] c = None"
| "IndexByte (x # xs) c = (if x = c then Some 0 else map_option Suc (IndexByte xs c))"

definition HasPrefix :: "string \<Rightarrow> string \<Rightarrow> bool" where
  "HasPrefix s p = (take (length p) s = p)"

text \<open>\<^verbatim>\<open>func (t *Tag) unmarshal(s string) error\<close>: the tag as left behind, and the error.\<close>

definition opentsdb_Tag_unmarshal :: "Tag \<Rightarrow> string \<Rightarrow> Tag \<times> line_error option" where
  "opentsdb_Tag_unmarshal t0 s =
     (let t = Tag_reset t0 in
      case IndexByte s (CHR ''='') of
        None \<Rightarrow> (t, Some (MissingTagValue s))
      | Some n \<Rightarrow>
          let t = t\<lparr>Key := take n s\<rparr> in
          if length (Key t) = 0 then (t, Some (EmptyTagKey s))
          else (t\<lparr>Val := drop (n + 1) s\<rparr>, None))"

lemma IndexByte_less: "IndexByte s c = Some n \<Longrightarrow> n < length s"
  by (induction s arbitrary: n) (auto split: if_splits)

function opentsdb_unmarshalTags ::
  "'f lib \<Rightarrow> heap \<Rightarrow> slice \<Rightarrow> string \<Rightarrow> heap \<times> slice \<times> line_error option" where
  "opentsdb_unmarshalTags L h0 dst0 s =
     (let (h, dst) = push_Tag L h0 dst0;
          tag = get_tag h dst (len dst - 1)
      in case IndexByte s (CHR '' '') of
        None \<Rightarrow>
          (let (t, err) = opentsdb_Tag_unmarshal tag s;
               h = set_tag h dst (len dst - 1) t
           in case err of
             Some e \<Rightarrow> (h, dst\<lparr>len := len dst - 1\<rparr>, Some e)
           | None \<Rightarrow> (h, dst, None))
      | Some n \<Rightarrow>
          (let (t, err) = opentsdb_Tag_unmarshal tag (take n s);
               h = set_tag h dst (len dst - 1) t
           in case err of
             Some e \<Rightarrow> (h, dst\<lparr>len := len dst - 1\<rparr>, Some e)
           | None \<Rightarrow> opentsdb_unmarshalTags L h dst (drop (n + 1) s)))"
  by pat_completeness auto
termination
  by (relation "measure (\<lambda>(L, h, dst, s). length s)") (auto dest: IndexByte_less)

text \<open>
  \<^verbatim>\<open>func (r *Row) unmarshal(s string, tagsPool []Tag) ([]Tag, error)\<close> of the line format.
  The row is changed in place, so the model returns it as the call leaves it, on the
  error paths too. \<open>tagsPool[tagsStart:]\<close> and \<open>tags[:len(tags):len(tags)]\<close> are the
  last two slice expressions.
\<close>

definition opentsdb_Row_unmarshal ::
  "'f lib \<Rightarrow> ('f::zero) Row \<Rightarrow> heap \<Rightarrow> string \<Rightarrow> slice
     \<Rightarrow> 'f Row \<times> heap \<times> slice \<times> line_error option" where
  "opentsdb_Row_unmarshal L r0 h s0 pool =
     (let r = Row_reset r0 in
      if \<not> HasPrefix s0 ''put '' then (r, h, pool, Some (MissingPutPrefix s0))
      else
       (let s = drop (length ''put '') s0 in
        (case IndexByte s (CHR '' '') of
           None \<Rightarrow> (r, h, pool, Some (NoSpaceMetricTimestamp s))
         | Some n \<Rightarrow>
            (let r = r\<lparr>Metric := take n s\<rparr>;
                 tail = drop (n + 1) s
             in (case IndexByte tail (CHR '' '') of
                   None \<Rightarrow> (r, h, pool, Some (NoSpaceTimestampValue s))
                 | Some n \<Rightarrow>
                    (let r = r\<lparr>Timestamp := toInt64 L (ParseBestEffort L (take n tail))\<rparr>;
                         tail = drop (n + 1) tail
                     in (case IndexByte tail (CHR '' '') of
                           None \<Rightarrow> (r, h, pool, Some (NoSpaceValueTag s))
                         | Some n \<Rightarrow>
                            (let r = r\<lparr>Value := ParseBestEffort L (take n tail)\<rparr>;
                                 tagsStart = len pool;
                                 (h, pool, err) =
                                   opentsdb_unmarshalTags L h pool (drop (n + 1) tail)
                             in (case err of
                                   Some e \<Rightarrow> (r, h, pool, Some (CannotUnmarshalTags s e))
                                 | None \<Rightarrow>
                                    (let tags = pool\<lparr>off := off pool + tagsStart,
                                                  len := len pool - tagsStart,
                                                  cap := cap pool - tagsStart\<rparr>
                                     in (r\<lparr>Tags := tags\<lparr>cap := len tags\<rparr>\<rparr>, h, pool,
                                         None)))))))))))"

function opentsdb_unmarshalRows ::
  "'f lib \<Rightarrow> ('f::zero) rowslice \<Rightarrow> heap \<Rightarrow> string \<Rightarrow> slice
     \<Rightarrow> 'f rowslice \<times> heap \<times> slice \<times> line_error option" where
  "opentsdb_unmarshalRows L dst0 h0 s pool0 =
     (if length s > 0 then
        (if IndexByte s (CHR 0x0A) = Some 0
         then opentsdb_unmarshalRows L dst0 h0 (drop 1 s) pool0
         else
           let dst = push_Row L dst0;
               r = last_Row dst
           in case IndexByte s (CHR 0x0A) of
             None \<Rightarrow>
               (let (r, h, pool, err) = opentsdb_Row_unmarshal L r h0 s pool0;
                    dst = set_last_Row dst r
                in case err of
                  Some e \<Rightarrow> (dst, h, pool, Some (CannotUnmarshalLine s e))
                | None \<Rightarrow> (dst, h, pool, None))
           | Some n \<Rightarrow>
               (let (r, h, pool, err) = opentsdb_Row_unmarshal L r h0 (take n s) pool0;
                    dst = set_last_Row dst r
                in case err of
                  Some e \<Rightarrow> (dst, h, pool, Some (CannotUnmarshalLine (take n s) e))
                | None \<Rightarrow> opentsdb_unmarshalRows L dst h (drop (n + 1) s) pool))
      else (dst0, h0, pool0, None))"
  by pat_completeness auto
termination
  by (relation "measure (\<lambda>(L, dst, h, s, pool). length s)") (auto dest: IndexByte_less)

text \<open>
  \<^verbatim>\<open>func (rs *Rows) Unmarshal(s string) error\<close>: both sequences are re-sliced to length 0
  (\<open>rs.Rows[:0]\<close>, \<open>rs.pool[:0]\<close>) and the results are stored back, whatever the error.
\<close>

definition opentsdb_Unmarshal ::
  "'f lib \<Rightarrow> ('f::zero) Rows \<Rightarrow> heap \<Rightarrow> string \<Rightarrow> 'f Rows \<times> heap \<times> line_error option" where
  "opentsdb_Unmarshal L rs h s =
     (let (dst, h, pool, err) =
            opentsdb_unmarshalRows L ((Rows rs)\<lparr>rlen := 0\<rparr>) h s ((tagsPool rs)\<lparr>len := 0\<rparr>)
      in (\<lparr>Rows = dst, tagsPool = pool\<rparr>, h, err))"

section \<open>The JSON format\<close>

text \<open>
  The accessors follow the library's documentation: \<^verbatim>\<open>Get\<close> returns
  the value of the first entry with the key and nil when there is none or the receiver is
  not an object (the four keys asked for here are not array indices),
  \<^verbatim>\<open>GetStringBytes\<close> and \<^verbatim>\<open>GetObject\<close> return nil unless the value found is a string or an
  object, \<^verbatim>\<open>Int64\<close> and \<^verbatim>\<open>Float64\<close> fail on anything but a number.
\<close>

definition Get :: "json \<Rightarrow> string \<Rightarrow> json option" where
  "Get v k = (case v of TypeObject kvs \<Rightarrow> map_of kvs k | _ \<Rightarrow> None)"

definition StringBytes :: "json \<Rightarrow> string option" where
  "StringBytes v = (case v of TypeString s \<Rightarrow> Some s | _ \<Rightarrow> None)"

definition GetStringBytes :: "json \<Rightarrow> string \<Rightarrow> string option" where
  "GetStringBytes v k = (case Get v k of None \<Rightarrow> None | Some x \<Rightarrow> StringBytes x)"

definition GetObject :: "json \<Rightarrow> string \<Rightarrow> (string \<times> json) list option" where
  "GetObject v k = (case Get v k of Some (TypeObject kvs) \<Rightarrow> Some kvs | _ \<Rightarrow> None)"

definition Int64 :: "'f lib \<Rightarrow> json \<Rightarrow> int64 option" where
  "Int64 L v = (case v of TypeNumber s \<Rightarrow> ParseInt64 L s | _ \<Rightarrow> None)"

definition Float64 :: "'f lib \<Rightarrow> json \<Rightarrow> 'f option" where
  "Float64 L v = (case v of TypeNumber s \<Rightarrow> ParseFloat64 L s | _ \<Rightarrow> None)"

definition SECOND_MASK :: int64 where
  "SECOND_MASK = 0x7FFFFFFF00000000"

datatype json_error =
    MissingField string json
  | InvalidField string json
  | EmptyBody
  | NotObjectOrArray json
  | CannotUnmarshalBody json json_error

text \<open>
  \<^verbatim>\<open>func unmarshalTags(dst []Tag, tags *fastjson.Object) []Tag\<close>: the callback of
  \<^verbatim>\<open>Visit\<close>, run on each entry in turn.
\<close>

fun opentsdbhttp_unmarshalTags ::
  "'f lib \<Rightarrow> heap \<Rightarrow> slice \<Rightarrow> (string \<times> json) list \<Rightarrow> heap \<times> slice" where
  "opentsdbhttp_unmarshalTags L h0 dst0 [] = (h0, dst0)"
| "opentsdbhttp_unmarshalTags L h0 dst0 ((k, v) # kvs) =
     (let (h, dst) = push_Tag L h0 dst0;
          tag = get_tag h dst (len dst - 1)
      in case StringBytes v of
        None \<Rightarrow> opentsdbhttp_unmarshalTags L h (dst\<lparr>len := len dst - 1\<rparr>) kvs
      | Some tv \<Rightarrow>
          opentsdbhttp_unmarshalTags L
            (set_tag h dst (len dst - 1) (tag\<lparr>Key := k, Val := tv\<rparr>)) dst kvs)"

text \<open>
  The timestamp of a row object: \<^verbatim>\<open>Int64\<close>, on its failure \<^verbatim>\<open>int64(tsF * 1000)\<close> of
  \<^verbatim>\<open>Float64\<close>; then, on either path, the test against \<^verbatim>\<open>SECOND_MASK\<close>.
\<close>

definition raw_timestamp :: "'f lib \<Rightarrow> json \<Rightarrow> int64 option" where
  "raw_timestamp L rawTs =
     (case Int64 L rawTs of
        Some ts \<Rightarrow> Some ts
      | None \<Rightarrow>
          (case Float64 L rawTs of
             None \<Rightarrow> None
           | Some tsF \<Rightarrow> Some (toInt64 L (mul1000 L tsF))))"

definition scale_timestamp :: "int64 \<Rightarrow> int64" where
  "scale_timestamp ts = (if ts AND SECOND_MASK = 0 then ts * 1000 else ts)"

definition opentsdbhttp_Row_unmarshal ::
  "'f lib \<Rightarrow> ('f::zero) Row \<Rightarrow> heap \<Rightarrow> json \<Rightarrow> slice
     \<Rightarrow> 'f Row \<times> heap \<times> slice \<times> json_error option" where
  "opentsdbhttp_Row_unmarshal L r0 h obj pool =
     (let r = Row_reset r0 in
      (case GetStringBytes obj ''metric'' of
         None \<Rightarrow> (r, h, pool, Some (MissingField ''metric'' obj))
       | Some m \<Rightarrow>
          (let r = r\<lparr>Metric := m\<rparr> in
           (case Get obj ''timestamp'' of
              None \<Rightarrow> (r, h, pool, Some (MissingField ''timestamp'' obj))
            | Some rawTs \<Rightarrow>
               (case raw_timestamp L rawTs of
                  None \<Rightarrow> (r, h, pool, Some (InvalidField ''timestamp'' obj))
                | Some ts \<Rightarrow>
                   (let r = r\<lparr>Timestamp := scale_timestamp ts\<rparr> in
                    (case Get obj ''value'' of
                       None \<Rightarrow> (r, h, pool, Some (MissingField ''value'' obj))
                     | Some rawV \<Rightarrow>
                        (case Float64 L rawV of
                           None \<Rightarrow> (r, h, pool, Some (InvalidField ''value'' obj))
                         | Some v \<Rightarrow>
                            (let r = r\<lparr>Value := v\<rparr> in
                             (case GetObject obj ''tags'' of
                                None \<Rightarrow> (r, h, pool, Some (MissingField ''tags'' obj))
                              | Some rawTags \<Rightarrow>
                                 (let tagsStart = len pool;
                                      (h, pool) = opentsdbhttp_unmarshalTags L h pool rawTags;
                                      tags = pool\<lparr>off := off pool + tagsStart,
                                               len := len pool - tagsStart,
                                               cap := cap pool - tagsStart\<rparr>
                                  in (r\<lparr>Tags := tags\<lparr>cap := len tags\<rparr>\<rparr>, h, pool, None))))))))))))"

text \<open>The loop \<^verbatim>\<open>for _, e := range a\<close> of \<^verbatim>\<open>unmarshalRows\<close>.\<close>

fun opentsdbhttp_unmarshalArray ::
  "'f lib \<Rightarrow> ('f::zero) rowslice \<Rightarrow> heap \<Rightarrow> json list \<Rightarrow> slice
     \<Rightarrow> 'f rowslice \<times> heap \<times> slice \<times> json_error option" where
  "opentsdbhttp_unmarshalArray L dst0 h0 [] pool0 = (dst0, h0, pool0, None)"
| "opentsdbhttp_unmarshalArray L dst0 h0 (e # es) pool0 =
     (let dst = push_Row L dst0;
          (r, h, pool, err) = opentsdbhttp_Row_unmarshal L (last_Row dst) h0 e pool0;
          dst = set_last_Row dst r
      in case err of
        Some x \<Rightarrow> (dst, h, pool, Some (CannotUnmarshalBody e x))
      | None \<Rightarrow> opentsdbhttp_unmarshalArray L dst h es pool)"

definition opentsdbhttp_unmarshalRows ::
  "'f lib \<Rightarrow> ('f::zero) rowslice \<Rightarrow> heap \<Rightarrow> json option \<Rightarrow> slice
     \<Rightarrow> 'f rowslice \<times> heap \<times> slice \<times> json_error option" where
  "opentsdbhttp_unmarshalRows L dst0 h0 av pool0 =
     (case av of
        None \<Rightarrow> (dst0, h0, pool0, Some EmptyBody)
      | Some (TypeObject kvs) \<Rightarrow>
          (let dst = push_Row L dst0;
               (r, h, pool, err) =
                 opentsdbhttp_Row_unmarshal L (last_Row dst) h0 (TypeObject kvs) pool0;
               dst = set_last_Row dst r
           in case err of
             Some x \<Rightarrow> (dst, h, pool, Some (CannotUnmarshalBody (TypeObject kvs) x))
           | None \<Rightarrow> (dst, h, pool, None))
      | Some (TypeArray a) \<Rightarrow> opentsdbhttp_unmarshalArray L dst0 h0 a pool0
      | Some v \<Rightarrow> (dst0, h0, pool0, Some (NotObjectOrArray v)))"

definition opentsdbhttp_Unmarshal ::
  "'f lib \<Rightarrow> ('f::zero) Rows \<Rightarrow> heap \<Rightarrow> json option
     \<Rightarrow> 'f Rows \<times> heap \<times> json_error option" where
  "opentsdbhttp_Unmarshal L rs h av =
     (let (dst, h, pool, err) =
            opentsdbhttp_unmarshalRows L ((Rows rs)\<lparr>rlen := 0\<rparr>) h av ((tagsPool rs)\<lparr>len := 0\<rparr>)
      in (\<lparr>Rows = dst, tagsPool = pool\<rparr>, h, err))"

text \<open>
  \<^verbatim>\<open>func (rs *Rows) Reset()\<close>, the same in both packages: every row and every tag within
  the lengths is reset, then both sequences are re-sliced to length 0.
\<close>

definition reset_rows :: "('f::zero) rowslice \<Rightarrow> 'f rowslice" where
  "reset_rows dst =
     \<lparr>backing = map Row_reset (take (rlen dst) (backing dst)) @ drop (rlen dst) (backing dst),
      rlen = 0\<rparr>"

definition reset_tags :: "heap \<Rightarrow> slice \<Rightarrow> heap" where
  "reset_tags h s = fold (\<lambda>i h. set_tag h s i (Tag_reset (get_tag h s i))) [0 ..< len s] h"

definition Reset :: "('f::zero) Rows \<Rightarrow> heap \<Rightarrow> 'f Rows \<times> heap" where
  "Reset rs h =
     (\<lparr>Rows = reset_rows (Rows rs), tagsPool = (tagsPool rs)\<lparr>len := 0\<rparr>\<rparr>,
      reset_tags h (tagsPool rs))"

section \<open>The request pipeline\<close>

text \<open>
  Modelled from the spec: the downstream storage insertion interface
  (\<^verbatim>\<open>common.InsertCtx\<close>), of which only the calls are in the source: a reset with a
  capacity hint, an append-label call, a write-data-point call that buffers one point, and
  a flush that hands the buffered points over or fails.
\<close>

record 'f InsertCtx =
  Labels :: "(string \<times> string) list"
  mrs :: "'f point list"

datatype handler_error =
    EOF
  | CannotReadGzip string
  | CannotReadRequest string
  | TooBigRequest int64
  | ErrorParsingJson string int64 int64
  | CannotUnmarshalJson json json_error
  | FlushFailed string

record 'f pushCtx =
  ctx_Rows :: "'f Rows"
  Common :: "'f InsertCtx"
  reqBuf :: string
  ctx_err :: "handler_error option"

text \<open>
  What a request runs in: its push context, the store of tag arrays, the counters of the
  package, and the points the storage has received.
\<close>

record 'f world =
  ctx :: "'f pushCtx"
  tagheap :: heap
  opentsdbReadCalls :: nat
  opentsdbReadErrors :: nat
  opentsdbUnmarshalErrors :: nat
  rowsInserted :: nat
  rowsPerInsert :: "nat list"
  storage :: "'f point list"

record request =
  Content_Encoding :: string
  Body :: reader

text \<open>
  \<^verbatim>\<open>ctx.reqBuf.ReadFrom(io.LimitReader(r, n))\<close>: the limited reader delivers at most \<open>n\<close>
  bytes (none when \<open>n \<le> 0\<close>) and then reports the end of input; the underlying reader's
  own end (its error or \<^verbatim>\<open>io.EOF\<close>) is only met when it runs dry before the limit.
  \<^verbatim>\<open>ReadFrom\<close> appends what it reads to the buffer and returns the count and the error,
  nil for \<^verbatim>\<open>io.EOF\<close>.
\<close>

definition ReadFrom_LimitReader ::
  "string \<Rightarrow> reader \<Rightarrow> int64 \<Rightarrow> string \<times> reader \<times> int64 \<times> string option" where
  "ReadFrom_LimitReader B r n =
     (let k = min (length (pending r)) (nat (sint n))
      in (B @ take k (pending r), r\<lparr>pending := drop k (pending r)\<rparr>, of_nat k,
          if int k < sint n then failure r else None))"

definition pushCtx_Read ::
  "'f lib \<Rightarrow> ('f::zero) world \<Rightarrow> reader \<Rightarrow> int64 \<Rightarrow> bool \<times> 'f world \<times> reader" where
  "pushCtx_Read L w r0 maxSize =
     (if ctx_err (ctx w) \<noteq> None then (False, w, r0)
      else
       (let (B, r, reqLen, e) = ReadFrom_LimitReader (reqBuf (ctx w)) r0 (maxSize + 1);
            w = w\<lparr>ctx := (ctx w)\<lparr>reqBuf := B\<rparr>\<rparr>
        in (case e of
              Some x \<Rightarrow>
                (False,
                 w\<lparr>opentsdbReadErrors := opentsdbReadErrors w + 1,
                   ctx := (ctx w)\<lparr>ctx_err := Some (CannotReadRequest x)\<rparr>\<rparr>, r)
            | None \<Rightarrow>
                if maxSize <s reqLen then
                  (False,
                   w\<lparr>opentsdbReadErrors := opentsdbReadErrors w + 1,
                     ctx := (ctx w)\<lparr>ctx_err := Some (TooBigRequest maxSize)\<rparr>\<rparr>, r)
                else
                 (case ParseBytes L (reqBuf (ctx w)) of
                    Inl x \<Rightarrow>
                      (False,
                       w\<lparr>opentsdbUnmarshalErrors := opentsdbUnmarshalErrors w + 1,
                         ctx := (ctx w)\<lparr>ctx_err := Some (ErrorParsingJson x reqLen maxSize)\<rparr>\<rparr>,
                       r)
                  | Inr v \<Rightarrow>
                     (let (rs, h, e) =
                            opentsdbhttp_Unmarshal L (ctx_Rows (ctx w)) (tagheap w) (Some v);
                          w = w\<lparr>ctx := (ctx w)\<lparr>ctx_Rows := rs\<rparr>, tagheap := h\<rparr>
                      in (case e of
                            Some x \<Rightarrow>
                              (False,
                               w\<lparr>opentsdbUnmarshalErrors := opentsdbUnmarshalErrors w + 1,
                                 ctx := (ctx w)\<lparr>ctx_err := Some (CannotUnmarshalJson v x)\<rparr>\<rparr>,
                               r)
                          | None \<Rightarrow> (True, w, r)))))))"

definition pushCtx_Error :: "'f pushCtx \<Rightarrow> handler_error option" where
  "pushCtx_Error c = (if ctx_err c = Some EOF then None else ctx_err c)"

text \<open>The body of the loop over the rows in \<^verbatim>\<open>InsertRows\<close>, for one row.\<close>

definition insert_Row :: "heap \<Rightarrow> 'f InsertCtx \<Rightarrow> 'f Row \<Rightarrow> 'f InsertCtx" where
  "insert_Row h ic r =
     (let ic = ic\<lparr>Labels := []\<rparr>;
          ic = ic\<lparr>Labels := Labels ic @ [([], Metric r)]\<rparr>;
          ic = fold (\<lambda>tag ic. ic\<lparr>Labels := Labels ic @ [(Key tag, Val tag)]\<rparr>) (view h (Tags r)) ic
      in ic\<lparr>mrs := mrs ic @ [(Labels ic, Timestamp r, Value r)]\<rparr>)"

definition InsertRows :: "'f lib \<Rightarrow> 'f world \<Rightarrow> 'f world \<times> handler_error option" where
  "InsertRows L w =
     (let rows = rows_of (Rows (ctx_Rows (ctx w)));
          ic = (Common (ctx w))\<lparr>Labels := [], mrs := []\<rparr>;
          ic = fold (\<lambda>r ic. insert_Row (tagheap w) ic r) rows ic;
          w = w\<lparr>rowsInserted := rowsInserted w + length rows,
                rowsPerInsert := rowsPerInsert w @ [length rows]\<rparr>
      in (case FlushBufs L (mrs ic) of
            Some x \<Rightarrow> (w\<lparr>ctx := (ctx w)\<lparr>Common := ic\<rparr>\<rparr>, Some (FlushFailed x))
          | None \<Rightarrow>
              (w\<lparr>ctx := (ctx w)\<lparr>Common := ic\<lparr>mrs := []\<rparr>\<rparr>, storage := storage w @ mrs ic\<rparr>,
               None)))"

text \<open>
  The loop \<^verbatim>\<open>for ctx.Read(r, maxSize) { if err := ctx.InsertRows(); err != nil { return err } }\<close>
  followed by \<^verbatim>\<open>return ctx.Error()\<close>. Nothing in the text of the loop bounds its runs, so
  the model is a partial function: \<open>None\<close> stands for a loop that never ends.
\<close>

partial_function (option) read_insert_loop ::
  "'f lib \<Rightarrow> ('f::zero) world \<Rightarrow> reader \<Rightarrow> int64 \<Rightarrow> ('f world \<times> handler_error option) option" where
  "read_insert_loop L w r maxSize =
     (case pushCtx_Read L w r maxSize of
        (ok, w1, r1) \<Rightarrow>
          if ok then
            (case InsertRows L w1 of
               (w2, e) \<Rightarrow>
                 if e \<noteq> None then Some (w2, e) else read_insert_loop L w2 r1 maxSize)
          else Some (w1, pushCtx_Error (ctx w1)))"

text \<open>\<^verbatim>\<open>func (ctx *pushCtx) reset()\<close>, run by \<^verbatim>\<open>putPushCtx\<close> when the handler returns.\<close>

definition pushCtx_reset :: "('f::zero) world \<Rightarrow> 'f world" where
  "pushCtx_reset w =
     (let (rs, h) = Reset (ctx_Rows (ctx w)) (tagheap w)
      in w\<lparr>ctx := \<lparr>ctx_Rows = rs, Common = \<lparr>Labels = [], mrs = []\<rparr>, reqBuf = [],
                    ctx_err = None\<rparr>,
           tagheap := h\<rparr>)"

text \<open>
  \<^verbatim>\<open>func insertHandlerInternal(req *http.Request, maxSize int64) error\<close>, run in the world
  whose context is the one \<^verbatim>\<open>getPushCtx\<close> hands out.
\<close>

definition insertHandlerInternal ::
  "'f lib \<Rightarrow> ('f::zero) world \<Rightarrow> request \<Rightarrow> int64 \<Rightarrow> ('f world \<times> handler_error option) option" where
  "insertHandlerInternal L w0 req maxSize =
     (let w = w0\<lparr>opentsdbReadCalls := opentsdbReadCalls w0 + 1\<rparr>
      in (case (if Content_Encoding req = ''gzip'' then NewGzipReader L (Body req)
                else Inr (Body req)) of
            Inl x \<Rightarrow> Some (w, Some (CannotReadGzip x))
          | Inr r \<Rightarrow>
              map_option (\<lambda>(w, e). (pushCtx_reset w, e)) (read_insert_loop L w r maxSize)))"

section \<open>A sample of the outside world\<close>

text \<open>
  Concrete runs need the parameters fixed. In the sample, a grown slice doubles its
  capacity, numbers are exact rationals, \<^verbatim>\<open>int64(f)\<close> truncates towards zero, and a token
  of decimal digits with an optional sign and fraction is parsed to the number it denotes;
  any other token is unparsable, which is 0 for \<^verbatim>\<open>ParseBestEffort\<close> and a failure for the
  two strict parsers. On tokens whose value is a float64 (such as 1577836800 and 42.5)
  that is the library's answer. The document parser knows one body, an array of a row
  object with a timestamp text of choice (here 1000000000) and a row object that has a
  metric and nothing else; the gzip reader hands the body through, and the flush succeeds.
\<close>

definition is_digit :: "char \<Rightarrow> bool" where
  "is_digit c = (48 \<le> (of_char c :: nat) \<and> (of_char c :: nat) \<le> 57)"

definition digits_val :: "string \<Rightarrow> int" where
  "digits_val ds = foldl (\<lambda>d c. d * 10 + (of_char c - 48)) 0 ds"

definition decimal :: "string \<Rightarrow> rat option" where
  "decimal s =
     (let neg = (take 1 s = ''-'');
          t = (if neg then drop 1 s else s);
          ip = takeWhile is_digit t;
          rest = dropWhile is_digit t;
          fp = drop 1 rest;
          sg = (if neg then - 1 else 1)
      in if ip = [] then None
         else if rest = [] then Some (sg * of_int (digits_val ip))
         else if take 1 rest = ''.'' \<and> fp \<noteq> [] \<and> list_all is_digit fp
           then Some (sg * of_int (digits_val (ip @ fp)) / 10 ^ length fp)
         else None)"

definition trunc64 :: "rat \<Rightarrow> int64" where
  "trunc64 x = word_of_int (if 0 \<le> x then \<lfloor>x\<rfloor> else - \<lfloor>- x\<rfloor>)"

definition sample_object :: "string \<Rightarrow> json" where
  "sample_object ts =
     TypeObject [(''metric'', TypeString ''sys.cpu''), (''timestamp'', TypeNumber ts),
       (''value'', TypeNumber ''42.5''),
       (''tags'', TypeObject [(''host'', TypeString ''web01''), (''dc'', TypeString ''us'')])]"

definition metric_only :: json where
  "metric_only = TypeObject [(''metric'', TypeString ''m'')]"

definition sample_doc :: json where
  "sample_doc = TypeArray [sample_object ''1000000000'', metric_only]"

definition sample_body :: string where
  \<open>sample_body =
     ''[{"metric":"sys.cpu","timestamp":1000000000,"value":42.5,"tags":{"host":"web01","dc":"us"}},{"metric":"m"}]''\<close>

definition sample_reader :: reader where
  "sample_reader = \<lparr>pending = sample_body, failure = None\<rparr>"

definition sample_lib :: "rat lib" where
  "sample_lib =
     \<lparr>growcap = (\<lambda>c. if c = 0 then 1 else 2 * c),
      toInt64 = trunc64,
      mul1000 = (\<lambda>x. x * 1000),
      ParseBestEffort = (\<lambda>s. case decimal s of None \<Rightarrow> 0 | Some x \<Rightarrow> x),
      ParseInt64 = (\<lambda>s. if CHR ''.'' \<in> set s then None else map_option trunc64 (decimal s)),
      ParseFloat64 = decimal,
      ParseBytes = (\<lambda>b. if b = sample_body then Inr sample_doc
                         else Inl ''cannot parse JSON''),
      NewGzipReader = Inr,
      FlushBufs = (\<lambda>ps. None)\<rparr>"

definition empty_world :: "('f::zero) world" where
  "empty_world =
     \<lparr>ctx = \<lparr>ctx_Rows = empty_Rows, Common = \<lparr>Labels = [], mrs = []\<rparr>, reqBuf = [],
              ctx_err = None\<rparr>,
      tagheap = empty_heap,
      opentsdbReadCalls = 0, opentsdbReadErrors = 0, opentsdbUnmarshalErrors = 0,
      rowsInserted = 0, rowsPerInsert = [], storage = []\<rparr>"

text \<open>The line of the spec's example, and a row object with a given timestamp text.\<close>

definition sample_line :: string where
  "sample_line = ''put sys.cpu 1577836800 42.5 host=web01 dc=us'' @ [CHR 0x0A]"



section \<open>The result of a parse, read as values\<close>

text \<open>
  To say what a parse leaves in the arena, a row is read back through the store as the
  tuple of its metric, timestamp, value and the tags its \<open>Tags\<close> view holds. The
  functions below compute that tuple from the input alone, with no slices and no store:
  \<open>fields\<close> splits at every occurrence of a byte (as \<^verbatim>\<open>strings.Split\<close> would), \<open>collect\<close>
  keeps the results before the first failure and that failure, \<open>line_entry\<close> and
  \<open>json_entry\<close> make the checks of the two \<^verbatim>\<open>Row.unmarshal\<close> methods in the same order.
  The lemmas after them prove that the parsers compute exactly this.
\<close>

type_synonym 'f entry = "string \<times> int64 \<times> 'f \<times> Tag list"

definition entry :: "heap \<Rightarrow> 'f Row \<Rightarrow> 'f entry" where
  "entry h r = (Metric r, Timestamp r, Value r, view h (Tags r))"

function fields :: "char \<Rightarrow> string \<Rightarrow> string list" where
  "fields c s =
     (case IndexByte s c of
        None \<Rightarrow> [s]
      | Some n \<Rightarrow> take n s # fields c (drop (n + 1) s))"
  by pat_completeness auto
termination
  by (relation "measure (\<lambda>(c, s). length s)") (auto dest: IndexByte_less)

definition tag_of :: "string \<Rightarrow> line_error + Tag" where
  "tag_of s =
     (case IndexByte s (CHR ''='') of
        None \<Rightarrow> Inl (MissingTagValue s)
      | Some n \<Rightarrow>
          if n = 0 then Inl (EmptyTagKey s)
          else Inr \<lparr>Key = take n s, Val = drop (n + 1) s\<rparr>)"

fun collect :: "('e + 'a) list \<Rightarrow> 'a list \<times> 'e option" where
  "collect [] = ([], None)"
| "collect (Inl e # xs) = ([], Some e)"
| "collect (Inr a # xs) = (a # fst (collect xs), snd (collect xs))"

fun string_tags :: "(string \<times> json) list \<Rightarrow> Tag list" where
  "string_tags [] = []"
| "string_tags ((k, TypeString s) # kvs) = \<lparr>Key = k, Val = s\<rparr> # string_tags kvs"
| "string_tags ((k, v) # kvs) = string_tags kvs"

definition line_entry :: "'f lib \<Rightarrow> string \<Rightarrow> line_error + 'f entry" where
  "line_entry L s0 =
     (if \<not> HasPrefix s0 ''put '' then Inl (MissingPutPrefix s0)
      else
       (let s = drop (length ''put '') s0 in
        (case fields (CHR '' '') s of
           [] \<Rightarrow> Inl (NoSpaceMetricTimestamp s)
         | [m] \<Rightarrow> Inl (NoSpaceMetricTimestamp s)
         | [m, ts] \<Rightarrow> Inl (NoSpaceTimestampValue s)
         | [m, ts, v] \<Rightarrow> Inl (NoSpaceValueTag s)
         | m # ts # v # tg # tags \<Rightarrow>
             (case collect (map tag_of (tg # tags)) of
                (tgs, None) \<Rightarrow>
                  Inr (m, toInt64 L (ParseBestEffort L ts), ParseBestEffort L v, tgs)
              | (tgs, Some e) \<Rightarrow> Inl (CannotUnmarshalTags s e)))))"

definition nonblank_lines :: "string \<Rightarrow> string list" where
  "nonblank_lines s = filter (\<lambda>l. l \<noteq> []) (fields (CHR 0x0A) s)"

definition line_entries :: "'f lib \<Rightarrow> string \<Rightarrow> 'f entry list \<times> line_error option" where
  "line_entries L s =
     collect (map (\<lambda>l. map_sum (CannotUnmarshalLine l) id (line_entry L l)) (nonblank_lines s))"

definition json_entry :: "'f lib \<Rightarrow> json \<Rightarrow> json_error + 'f entry" where
  "json_entry L obj =
     (case GetStringBytes obj ''metric'' of
        None \<Rightarrow> Inl (MissingField ''metric'' obj)
      | Some m \<Rightarrow>
         (case Get obj ''timestamp'' of
            None \<Rightarrow> Inl (MissingField ''timestamp'' obj)
          | Some rawTs \<Rightarrow>
             (case raw_timestamp L rawTs of
                None \<Rightarrow> Inl (InvalidField ''timestamp'' obj)
              | Some ts \<Rightarrow>
                 (case Get obj ''value'' of
                    None \<Rightarrow> Inl (MissingField ''value'' obj)
                  | Some rawV \<Rightarrow>
                     (case Float64 L rawV of
                        None \<Rightarrow> Inl (InvalidField ''value'' obj)
                      | Some v \<Rightarrow>
                         (case GetObject obj ''tags'' of
                            None \<Rightarrow> Inl (MissingField ''tags'' obj)
                          | Some kvs \<Rightarrow> Inr (m, scale_timestamp ts, v, string_tags kvs)))))))"


text \<open>
  The four fields a row object must have, in the order \<^verbatim>\<open>Row.unmarshal\<close> asks for them, and
  what it takes for each to pass its check.
\<close>

definition required_fields :: "string list" where
  "required_fields = [''metric'', ''timestamp'', ''value'', ''tags'']"

definition field_ok :: "'f lib \<Rightarrow> json \<Rightarrow> string \<Rightarrow> bool" where
  "field_ok L obj g =
     (if g = ''metric'' then GetStringBytes obj ''metric'' \<noteq> None
      else if g = ''timestamp'' then
        (case Get obj ''timestamp'' of None \<Rightarrow> False | Some rawTs \<Rightarrow> raw_timestamp L rawTs \<noteq> None)
      else if g = ''value'' then
        (case Get obj ''value'' of None \<Rightarrow> False | Some rawV \<Rightarrow> Float64 L rawV \<noteq> None)
      else GetObject obj ''tags'' \<noteq> None)"

section \<open>Invariants of the store\<close>

text \<open>
  \<open>wf_pool h p\<close>: the pool slice \<open>p\<close> starts at index 0 of an allocated array that
  holds its capacity. \<open>arena_ok\<close> is the same for an arena; the empty arena satisfies it
  and \<^verbatim>\<open>Unmarshal\<close> and \<^verbatim>\<open>Reset\<close> keep it.
  \<open>ext h d h' d'\<close>: the run from store \<open>h\<close> and pool \<open>d\<close> to \<open>h'\<close> and \<open>d'\<close> only
  allocated arrays or wrote at indices from \<open>len d\<close> on, and \<open>d'\<close> still starts with the
  content of \<open>d\<close>.
  \<open>safe h p v\<close>: the view \<open>v\<close> has capacity equal to its length, lies in an allocated
  array at an index range within the length of the pool \<open>p\<close>, and holds what the pool
  holds at that range.
  \<open>chained a vs\<close>: the views \<open>vs\<close> have capacity equal to length and occupy consecutive
  index ranges starting at \<open>a\<close>.
\<close>

definition wf_pool :: "heap \<Rightarrow> slice \<Rightarrow> bool" where
  "wf_pool h p = (off p = 0 \<and> len p \<le> cap p \<and> cap p \<le> length (arrays h (ptr p)) \<and> ptr p < brk h)"

definition arena_ok :: "'f Rows \<Rightarrow> heap \<Rightarrow> bool" where
  "arena_ok rs h = (wf_pool h (tagsPool rs) \<and> rlen (Rows rs) \<le> length (backing (Rows rs)))"

definition ext :: "heap \<Rightarrow> slice \<Rightarrow> heap \<Rightarrow> slice \<Rightarrow> bool" where
  "ext h d h' d' =
     (brk h \<le> brk h' \<and> len d \<le> len d' \<and>
      (\<forall>a<brk h. length (arrays h' a) = length (arrays h a) \<and>
                 (\<forall>i<len d. arrays h' a ! i = arrays h a ! i)) \<and>
      take (len d) (view h' d') = view h d)"

definition safe :: "heap \<Rightarrow> slice \<Rightarrow> slice \<Rightarrow> bool" where
  "safe h p v =
     (ptr v < brk h \<and> cap v = len v \<and> off v + len v \<le> len p \<and>
      off v + len v \<le> length (arrays h (ptr v)) \<and>
      view h v = take (len v) (drop (off v) (view h p)))"

fun chained :: "nat \<Rightarrow> slice list \<Rightarrow> bool" where
  "chained a [] = True"
| "chained a (v # vs) = (off v = a \<and> cap v = len v \<and> chained (a + len v) vs)"

definition rows_ok :: "heap \<Rightarrow> slice \<Rightarrow> 'f rowslice \<Rightarrow> bool" where
  "rows_ok h p dst =
     (rlen dst \<le> length (backing dst) \<and> (\<forall>r\<in>set (rows_of dst). safe h p (Tags r)))"

definition row_post ::
  "heap \<Rightarrow> slice \<Rightarrow> 'f Row \<Rightarrow> heap \<Rightarrow> slice \<Rightarrow> 'e option \<Rightarrow> 'e + 'f entry \<Rightarrow> bool" where
  "row_post h p r h' p' e res =
     (wf_pool h' p' \<and> ext h p h' p' \<and> safe h' p' (Tags r) \<and>
      (case res of
         Inl x \<Rightarrow> e = Some x
       | Inr en \<Rightarrow> e = None \<and> entry h' r = en \<and> off (Tags r) = len p \<and>
                  len p + len (Tags r) = len p'))"

definition loop_post ::
  "heap \<Rightarrow> slice \<Rightarrow> 'f rowslice \<Rightarrow> 'f rowslice \<Rightarrow> heap \<Rightarrow> slice \<Rightarrow> 'e option
     \<Rightarrow> 'f entry list \<times> 'e option \<Rightarrow> bool" where
  "loop_post h p dst dst' h' p' e res =
     (wf_pool h' p' \<and> ext h p h' p' \<and> rows_ok h' p' dst' \<and> e = snd res \<and>
      (\<exists>nrs bad. rows_of dst' = rows_of dst @ nrs @ bad \<and>
         length bad = (if e = None then 0 else 1) \<and>
         map (entry h') nrs = fst res \<and>
         chained (len p) (map Tags nrs) \<and>
         (e = None \<longrightarrow> len p + sum_list (map (len \<circ> Tags) nrs) = len p')))"

section \<open>Lemmas: slices, rows and the two parsers\<close>

lemma length_view: "wf_pool h p \<Longrightarrow> length (view h p) = len p"
  by (simp add: wf_pool_def view_def)

lemma ext_refl: "wf_pool h d \<Longrightarrow> ext h d h d"
  by (simp add: ext_def length_view)

lemma ext_trans:
  assumes "ext h0 d0 h1 d1" "ext h1 d1 h2 d2"
  shows "ext h0 d0 h2 d2"
proof -
  have le: "len d0 \<le> len d1" using assms by (simp add: ext_def)
  have "take (len d0) (view h2 d2) = take (len d0) (take (len d1) (view h2 d2))"
    using le by (simp add: min_absorb1)
  also have "\<dots> = take (len d0) (view h1 d1)" using assms by (simp add: ext_def)
  also have "\<dots> = view h0 d0" using assms by (simp add: ext_def)
  finally have v: "take (len d0) (view h2 d2) = view h0 d0" .
  show ?thesis
    unfolding ext_def
  proof (intro conjI allI impI)
    show "brk h0 \<le> brk h2" using assms by (simp add: ext_def)
    show "len d0 \<le> len d2" using assms by (simp add: ext_def)
    show "take (len d0) (view h2 d2) = view h0 d0" by (rule v)
  next
    fix a assume a: "a < brk h0"
    then have a1: "a < brk h1" using assms by (simp add: ext_def)
    show "length (arrays h2 a) = length (arrays h0 a)"
      using assms a a1 by (simp add: ext_def)
    fix i assume "i < len d0"
    then have "i < len d1" using le by simp
    then show "arrays h2 a ! i = arrays h0 a ! i"
      using assms a a1 \<open>i < len d0\<close> by (simp add: ext_def)
  qed
qed

lemma push_Tag_ext:
  assumes "wf_pool h d" "push_Tag L h d = (h', d')"
  shows "wf_pool h' d' \<and> ext h d h' d' \<and> len d' = Suc (len d)"
  using assms
  by (auto simp: push_Tag_def append_Tag_def wf_pool_def ext_def view_def newcap_def
        split: if_splits)

lemma take_upd_last: "n < length xs \<Longrightarrow> take (Suc n) (xs[n := t]) = take n xs @ [t]"
  by (simp add: take_Suc_conv_app_nth)

lemma step_keep:
  assumes "wf_pool h d" "push_Tag L h d = (h1, d1)"
  shows "wf_pool (set_tag h1 d1 (len d1 - 1) t) d1 \<and>
         ext h d (set_tag h1 d1 (len d1 - 1) t) d1 \<and>
         view (set_tag h1 d1 (len d1 - 1) t) d1 = view h d @ [t] \<and>
         len d1 = Suc (len d)"
proof -
  from push_Tag_ext[OF assms]
  have wf1: "wf_pool h1 d1" and e1: "ext h d h1 d1" and l1: "len d1 = Suc (len d)" by auto
  let ?h = "set_tag h1 d1 (len d1 - 1) t"
  have lt: "len d < length (arrays h1 (ptr d1))" using wf1 l1 by (simp add: wf_pool_def)
  have wf: "wf_pool ?h d1" using wf1 by (simp add: wf_pool_def set_tag_def)
  have "view ?h d1 = take (len d) (arrays h1 (ptr d1)) @ [t]"
    using wf1 l1 lt by (simp add: view_def set_tag_def wf_pool_def take_upd_last)
  moreover have "take (len d) (arrays h1 (ptr d1)) = take (len d) (view h1 d1)"
    using wf1 l1 by (simp add: view_def wf_pool_def min_absorb1)
  ultimately have v: "view ?h d1 = view h d @ [t]" using e1 by (simp add: ext_def)
  have lv: "length (view h d) = len d" using assms(1) by (rule length_view)
  have e: "ext h d ?h d1"
    unfolding ext_def
  proof (intro conjI allI impI)
    show "brk h \<le> brk ?h" using e1 by (simp add: ext_def set_tag_def)
    show "len d \<le> len d1" using l1 by simp
    show "take (len d) (view ?h d1) = view h d" using v lv by simp
  next
    fix a assume a: "a < brk h"
    show "length (arrays ?h a) = length (arrays h a)"
      using e1 a by (simp add: ext_def set_tag_def)
    fix i assume "i < len d"
    then show "arrays ?h a ! i = arrays h a ! i"
      using e1 a wf1 l1 by (simp add: ext_def set_tag_def wf_pool_def)
  qed
  show ?thesis using wf e v l1 by simp
qed

lemma step_drop:
  assumes "wf_pool h d" "push_Tag L h d = (h1, d1)"
    and "h' = h1 \<or> h' = set_tag h1 d1 (len d1 - 1) t"
  shows "wf_pool h' (d1\<lparr>len := len d1 - 1\<rparr>) \<and>
         ext h d h' (d1\<lparr>len := len d1 - 1\<rparr>) \<and>
         view h' (d1\<lparr>len := len d1 - 1\<rparr>) = view h d \<and>
         len (d1\<lparr>len := len d1 - 1\<rparr>) = len d"
proof -
  from push_Tag_ext[OF assms(1,2)]
  have wf1: "wf_pool h1 d1" and e1: "ext h d h1 d1" and l1: "len d1 = Suc (len d)" by auto
  let ?d = "d1\<lparr>len := len d1 - 1\<rparr>"
  have wf: "wf_pool h' ?d" using wf1 assms(3) by (auto simp: wf_pool_def set_tag_def)
  have "view h' ?d = take (len d) (view h1 d1)"
    using wf1 l1 assms(3) by (auto simp: view_def set_tag_def wf_pool_def min_absorb1)
  then have v: "view h' ?d = view h d" using e1 by (simp add: ext_def)
  have lv: "length (view h d) = len d" using assms(1) by (rule length_view)
  have e: "ext h d h' ?d"
    unfolding ext_def
  proof (intro conjI allI impI)
    show "brk h \<le> brk h'" using e1 assms(3) by (auto simp: ext_def set_tag_def)
    show "len d \<le> len ?d" using l1 by simp
    show "take (len d) (view h' ?d) = view h d" using v lv by simp
  next
    fix a assume a: "a < brk h"
    show "length (arrays h' a) = length (arrays h a)"
      using e1 a assms(3) by (auto simp: ext_def set_tag_def)
    fix i assume "i < len d"
    then show "arrays h' a ! i = arrays h a ! i"
      using e1 a wf1 l1 assms(3) by (auto simp: ext_def set_tag_def wf_pool_def)
  qed
  show ?thesis using wf e v l1 by simp
qed

declare fields.simps [simp del]

declare opentsdb_unmarshalTags.simps [simp del]

lemma Tag_unmarshal_tag_of:
  "opentsdb_Tag_unmarshal t0 s = (t, e) \<Longrightarrow>
     (case tag_of s of Inl x \<Rightarrow> e = Some x | Inr t' \<Rightarrow> e = None \<and> t = t')"
  by (auto simp: opentsdb_Tag_unmarshal_def tag_of_def Tag_reset_def Let_def
        split: option.splits if_splits dest: IndexByte_less)

lemma opentsdb_unmarshalTags_ext:
  "wf_pool h d \<Longrightarrow> opentsdb_unmarshalTags L h d s = (h', d', e) \<Longrightarrow>
     wf_pool h' d' \<and> ext h d h' d' \<and>
     view h' d' = view h d @ fst (collect (map tag_of (fields (CHR '' '') s))) \<and>
     e = snd (collect (map tag_of (fields (CHR '' '') s)))"
proof (induction L h d s arbitrary: h' d' e rule: opentsdb_unmarshalTags.induct)
  case (1 L h0 dst0 s)
  obtain h1 d1 where p: "push_Tag L h0 dst0 = (h1, d1)" by (cases "push_Tag L h0 dst0")
  let ?tag = "get_tag h1 d1 (len d1 - 1)"
  show ?case
  proof (cases "IndexByte s (CHR '' '')")
    case None
    obtain t x where u: "opentsdb_Tag_unmarshal ?tag s = (t, x)"
      by (cases "opentsdb_Tag_unmarshal ?tag s")
    note tg = Tag_unmarshal_tag_of[OF u]
    have f: "fields (CHR '' '') s = [s]" using None by (simp add: fields.simps)
    show ?thesis
    proof (cases x)
      case None' : None
      then obtain t' where t': "tag_of s = Inr t'" "t = t'" using tg by (auto split: sum.splits)
      have r: "h' = set_tag h1 d1 (len d1 - 1) t" "d' = d1" "e = None"
        using "1.prems"(2) p None u None'
        by (auto simp: opentsdb_unmarshalTags.simps[of L h0 dst0 s])
      show ?thesis using step_keep[OF "1.prems"(1) p, of t] r f t' by auto
    next
      case (Some y)
      then have t': "tag_of s = Inl y" using tg by (auto split: sum.splits)
      have r: "h' = set_tag h1 d1 (len d1 - 1) t" "d' = d1\<lparr>len := len d1 - 1\<rparr>" "e = Some y"
        using "1.prems"(2) p None u Some
        by (auto simp: opentsdb_unmarshalTags.simps[of L h0 dst0 s])
      show ?thesis using step_drop[OF "1.prems"(1) p, of h' t] r f t' by auto
    qed
  next
    case (Some n)
    obtain t x where u: "opentsdb_Tag_unmarshal ?tag (take n s) = (t, x)"
      by (cases "opentsdb_Tag_unmarshal ?tag (take n s)")
    note tg = Tag_unmarshal_tag_of[OF u]
    have f: "fields (CHR '' '') s = take n s # fields (CHR '' '') (drop (n + 1) s)"
      using Some by (simp add: fields.simps[of _ s])
    show ?thesis
    proof (cases x)
      case None
      then obtain t' where t': "tag_of (take n s) = Inr t'" "t = t'"
        using tg by (auto split: sum.splits)
      let ?h = "set_tag h1 d1 (len d1 - 1) t"
      have r: "opentsdb_unmarshalTags L ?h d1 (drop (n + 1) s) = (h', d', e)"
        using "1.prems"(2) p Some u None
        by (simp add: opentsdb_unmarshalTags.simps[of L h0 dst0 s])
      note sk = step_keep[OF "1.prems"(1) p, of t]
      have ih: "wf_pool h' d' \<and> ext ?h d1 h' d' \<and>
         view h' d' = view ?h d1 @ fst (collect (map tag_of (fields (CHR '' '') (drop (n + 1) s)))) \<and>
         e = snd (collect (map tag_of (fields (CHR '' '') (drop (n + 1) s))))"
        using "1.IH"[OF refl p[symmetric] refl Some refl u[symmetric] refl None _ r] sk by auto
      have "ext h0 dst0 h' d'" using sk ih ext_trans by blast
      then show ?thesis using ih sk f t' by (auto split: prod.splits)
    next
      case (Some y)
      then have t': "tag_of (take n s) = Inl y" using tg by (auto split: sum.splits)
      have r: "h' = set_tag h1 d1 (len d1 - 1) t" "d' = d1\<lparr>len := len d1 - 1\<rparr>" "e = Some y"
        using "1.prems"(2) p \<open>IndexByte s (CHR '' '') = Some n\<close> u Some
        by (auto simp: opentsdb_unmarshalTags.simps[of L h0 dst0 s])
      show ?thesis using step_drop[OF "1.prems"(1) p, of h' t] r f t' by auto
    qed
  qed
qed

lemma opentsdbhttp_unmarshalTags_ext:
  "wf_pool h d \<Longrightarrow> opentsdbhttp_unmarshalTags L h d kvs = (h', d') \<Longrightarrow>
     wf_pool h' d' \<and> ext h d h' d' \<and> view h' d' = view h d @ string_tags kvs"
proof (induction kvs arbitrary: h d)
  case Nil
  then show ?case by (simp add: ext_refl)
next
  case (Cons kv kvs)
  obtain k v where kv: "kv = (k, v)" by (cases kv)
  obtain h1 d1 where p: "push_Tag L h d = (h1, d1)" by (cases "push_Tag L h d")
  show ?case
  proof (cases "StringBytes v")
    case None
    let ?d = "d1\<lparr>len := len d1 - 1\<rparr>"
    have r: "opentsdbhttp_unmarshalTags L h1 ?d kvs = (h', d')"
      using Cons.prems(2) kv p None by simp
    have sd: "wf_pool h1 ?d \<and> ext h d h1 ?d \<and> view h1 ?d = view h d \<and> len ?d = len d"
      using step_drop[OF Cons.prems(1) p, of h1] by auto
    have ih: "wf_pool h' d' \<and> ext h1 ?d h' d' \<and> view h' d' = view h1 ?d @ string_tags kvs"
      using Cons.IH[OF _ r] sd by auto
    have "ext h d h' d'" using sd ih ext_trans by blast
    moreover have "string_tags ((k, v) # kvs) = string_tags kvs"
      using None by (cases v) (simp_all add: StringBytes_def)
    ultimately show ?thesis using ih sd kv by auto
  next
    case (Some tv)
    let ?t = "(get_tag h1 d1 (len d1 - 1))\<lparr>Key := k, Val := tv\<rparr>"
    let ?h = "set_tag h1 d1 (len d1 - 1) ?t"
    have t: "?t = \<lparr>Key = k, Val = tv\<rparr>" by simp
    have r: "opentsdbhttp_unmarshalTags L ?h d1 kvs = (h', d')"
      using Cons.prems(2) kv p Some by simp
    note sk = step_keep[OF Cons.prems(1) p, of ?t]
    have ih: "wf_pool h' d' \<and> ext ?h d1 h' d' \<and> view h' d' = view ?h d1 @ string_tags kvs"
      using Cons.IH[OF _ r] sk by auto
    have "ext h d h' d'" using sk ih ext_trans by blast
    moreover have "string_tags ((k, v) # kvs) = \<lparr>Key = k, Val = tv\<rparr> # string_tags kvs"
      using Some by (cases v) (simp_all add: StringBytes_def)
    ultimately show ?thesis using ih sk kv t by auto
  qed
qed

lemma safe_nil: "wf_pool h p \<Longrightarrow> safe h p nil_slice"
  by (simp add: safe_def nil_slice_def wf_pool_def view_def)

lemma take_drop_conv: "take n (drop m xs) = drop m (take (m + n) xs)"
  by (simp add: drop_take)

lemma safe_ext:
  assumes e: "ext h p h' p'" and s: "safe h p v"
  shows "safe h' p' v \<and> view h' v = view h v"
proof -
  let ?xs = "arrays h (ptr v)" and ?ys = "arrays h' (ptr v)"
  have a: "ptr v < brk h" and le: "off v + len v \<le> len p"
    and lx: "off v + len v \<le> length ?xs" using s by (simp_all add: safe_def)
  have ly: "length ?ys = length ?xs" using e a by (simp add: ext_def)
  have nth: "\<forall>i<off v + len v. ?ys ! i = ?xs ! i" using e a le by (simp add: ext_def)
  have "take (off v + len v) ?ys = take (off v + len v) ?xs"
    using nth lx ly by (intro nth_take_lemma) simp_all
  then have v: "view h' v = view h v" by (simp add: view_def take_drop_conv)
  have "take (len v) (drop (off v) (view h' p')) =
        drop (off v) (take (off v + len v) (take (len p) (view h' p')))"
    using le by (simp add: take_drop_conv min_absorb1)
  also have "\<dots> = take (len v) (drop (off v) (view h p))"
    using e by (simp add: ext_def take_drop_conv)
  finally have c: "view h' v = take (len v) (drop (off v) (view h' p'))"
    using v s by (simp add: safe_def)
  have "len p \<le> len p'" "brk h \<le> brk h'" using e by (simp_all add: ext_def)
  then show ?thesis using s v c ly by (simp add: safe_def)
qed

lemma safe_new:
  assumes "wf_pool h p" "wf_pool h' p'" "ext h p h' p'" "view h' p' = view h p @ ts"
    and v: "v = \<lparr>ptr = ptr p', off = len p, len = len p' - len p, cap = len p' - len p\<rparr>"
  shows "safe h' p' v \<and> view h' v = ts"
proof -
  have le: "len p \<le> len p'" using assms(3) by (simp add: ext_def)
  have lv: "length (view h p) = len p" using assms(1) by (rule length_view)
  have lv': "length (view h' p') = len p'" using assms(2) by (rule length_view)
  have o: "off p' = 0" "len p' \<le> length (arrays h' (ptr p'))" "ptr p' < brk h'"
    using assms(2) by (simp_all add: wf_pool_def)
  have "view h' v = drop (len p) (view h' p')"
    using le o by (simp add: v view_def take_drop_conv)
  then have c: "view h' v = ts" using assms(4) lv by simp
  have "view h' v = take (len v) (drop (off v) (view h' p'))"
    using le lv' \<open>view h' v = drop (len p) (view h' p')\<close> by (simp add: v)
  then show ?thesis using c le o by (simp add: safe_def v)
qed

lemma fields_None: "IndexByte s c = None \<Longrightarrow> fields c s = [s]"
  by (simp add: fields.simps)

lemma fields_Some: "IndexByte s c = Some n \<Longrightarrow> fields c s = take n s # fields c (drop (n + 1) s)"
  by (simp add: fields.simps[of c s])

lemma fields_not_Nil: "fields c s \<noteq> []"
  by (cases "IndexByte s c") (simp_all add: fields_None fields_Some)

lemma opentsdb_Row_unmarshal_ext:
  assumes wf: "wf_pool h p"
    and run: "opentsdb_Row_unmarshal L r0 h s0 p = (r, h', p', e)"
  shows "wf_pool h' p' \<and> ext h p h' p' \<and> safe h' p' (Tags r) \<and>
     (case line_entry L s0 of
        Inl x \<Rightarrow> e = Some x
      | Inr en \<Rightarrow> e = None \<and> entry h' r = en \<and> off (Tags r) = len p \<and>
                 len p + len (Tags r) = len p')"
proof -
  note base = wf ext_refl[OF wf] safe_nil[OF wf]
  note defs = opentsdb_Row_unmarshal_def line_entry_def Row_reset_def Let_def
  let ?sp = "CHR '' ''"
  let ?s = "drop (length ''put '') s0"
  show ?thesis
  proof (cases "HasPrefix s0 ''put ''")
    case False
    then show ?thesis using run base by (auto simp: defs)
  next
    case pre: True
    show ?thesis
    proof (cases "IndexByte ?s ?sp")
      case None
      then show ?thesis using run base pre by (auto simp: defs fields_None)
    next
      case n1: (Some n1)
      let ?t1 = "drop (n1 + 1) ?s"
      show ?thesis
      proof (cases "IndexByte ?t1 ?sp")
        case None
        then show ?thesis using run base pre n1 by (auto simp: defs fields_None fields_Some)
      next
        case n2: (Some n2)
        let ?t2 = "drop (n2 + 1) ?t1"
        show ?thesis
        proof (cases "IndexByte ?t2 ?sp")
          case None
          then show ?thesis using run base pre n1 n2
            by (auto simp: defs fields_None fields_Some)
        next
          case n3: (Some n3)
          let ?t3 = "drop (n3 + 1) ?t2"
          obtain h1 p1 x where u: "opentsdb_unmarshalTags L h p ?t3 = (h1, p1, x)"
            by (cases "opentsdb_unmarshalTags L h p ?t3")
          note tg = opentsdb_unmarshalTags_ext[OF wf u]
          obtain tgf tgs where f3: "fields ?sp ?t3 = tgf # tgs"
            using fields_not_Nil[of ?sp ?t3] by (cases "fields ?sp ?t3") auto
          have fs: "fields ?sp ?s = take n1 ?s # take n2 ?t1 # take n3 ?t2 # tgf # tgs"
            using n1 n2 n3 f3 fields_Some[of ?s ?sp n1] fields_Some[of ?t1 ?sp n2]
              fields_Some[of ?t2 ?sp n3] by simp
          define ok where "ok = fst (collect (map tag_of (tgf # tgs)))"
          have x: "x = snd (collect (map tag_of (tgf # tgs)))" using tg f3 by simp
          have c: "collect (map tag_of (tgf # tgs)) = (ok, x)" unfolding ok_def x by simp
          have vw: "view h1 p1 = view h p @ ok" unfolding ok_def using tg f3 by simp
          have le: "line_entry L s0 =
              (case x of None \<Rightarrow> Inr (take n1 ?s, toInt64 L (ParseBestEffort L (take n2 ?t1)),
                    ParseBestEffort L (take n3 ?t2), ok)
               | Some y \<Rightarrow> Inl (CannotUnmarshalTags ?s y))"
            unfolding line_entry_def Let_def using pre fs c by (simp split: option.splits)
          have run': "(r, h', p', e) =
              (case x of
                 Some y \<Rightarrow> ((Row_reset r0)\<lparr>Metric := take n1 ?s,
                      Timestamp := toInt64 L (ParseBestEffort L (take n2 ?t1)),
                      Value := ParseBestEffort L (take n3 ?t2)\<rparr>, h1, p1,
                      Some (CannotUnmarshalTags ?s y))
               | None \<Rightarrow> ((Row_reset r0)\<lparr>Metric := take n1 ?s,
                      Timestamp := toInt64 L (ParseBestEffort L (take n2 ?t1)),
                      Value := ParseBestEffort L (take n3 ?t2),
                      Tags := \<lparr>ptr = ptr p1, off = off p1 + len p, len = len p1 - len p,
                               cap = len p1 - len p\<rparr>\<rparr>, h1, p1, None))"
            unfolding run[symmetric] opentsdb_Row_unmarshal_def Let_def
            using pre n1 n2 n3 u by (simp split: option.splits)
          show ?thesis
          proof (cases x)
            case None
            let ?v = "\<lparr>ptr = ptr p1, off = len p, len = len p1 - len p, cap = len p1 - len p\<rparr>"
            have o: "off p1 = 0" using tg by (simp add: wf_pool_def)
            have lle: "len p \<le> len p1" using tg by (simp add: ext_def)
            have sn: "safe h1 p1 ?v \<and> view h1 ?v = ok"
              using safe_new[OF wf _ _ vw refl] tg by simp
            show ?thesis using run' le None sn tg lle o by (simp add: entry_def Row_reset_def)
          next
            case (Some y)
            show ?thesis using run' le Some tg safe_nil[of h1 p1]
              by (simp add: Row_reset_def)
          qed
        qed
      qed
    qed
  qed
qed

lemma opentsdb_Row_unmarshal_post:
  "wf_pool h p \<Longrightarrow> opentsdb_Row_unmarshal L r0 h s0 p = (r, h', p', e) \<Longrightarrow>
     row_post h p r h' p' e (line_entry L s0)"
  unfolding row_post_def by (rule opentsdb_Row_unmarshal_ext)

lemma opentsdbhttp_Row_unmarshal_post:
  assumes wf: "wf_pool h p"
    and run: "opentsdbhttp_Row_unmarshal L r0 h obj p = (r, h', p', e)"
  shows "row_post h p r h' p' e (json_entry L obj)"
proof (cases "json_entry L obj")
  case (Inl x)
  then have "h' = h \<and> p' = p \<and> e = Some x \<and> Tags r = nil_slice"
    using run
    by (auto simp: opentsdbhttp_Row_unmarshal_def json_entry_def Row_reset_def Let_def
          split: option.splits)
  then show ?thesis using Inl wf ext_refl[OF wf] safe_nil[OF wf] by (simp add: row_post_def)
next
  case (Inr en)
  then obtain m rawTs ts rawV v kvs where g:
    "GetStringBytes obj ''metric'' = Some m" "Get obj ''timestamp'' = Some rawTs"
    "raw_timestamp L rawTs = Some ts" "Get obj ''value'' = Some rawV"
    "Float64 L rawV = Some v" "GetObject obj ''tags'' = Some kvs"
    and en: "en = (m, scale_timestamp ts, v, string_tags kvs)"
    by (auto simp: json_entry_def split: option.splits)
  obtain h1 p1 where u: "opentsdbhttp_unmarshalTags L h p kvs = (h1, p1)"
    by (cases "opentsdbhttp_unmarshalTags L h p kvs")
  note tg = opentsdbhttp_unmarshalTags_ext[OF wf u]
  let ?v = "\<lparr>ptr = ptr p1, off = len p, len = len p1 - len p, cap = len p1 - len p\<rparr>"
  have o: "off p1 = 0" using tg by (simp add: wf_pool_def)
  have lle: "len p \<le> len p1" using tg by (simp add: ext_def)
  have res: "h' = h1 \<and> p' = p1 \<and> e = None \<and> Tags r = ?v \<and> Metric r = m \<and>
      Timestamp r = scale_timestamp ts \<and> Value r = v"
    using run g u o
    by (auto simp: opentsdbhttp_Row_unmarshal_def Row_reset_def Let_def)
  have sn: "safe h1 p1 ?v \<and> view h1 ?v = string_tags kvs"
    using safe_new[OF wf _ _ _ refl] tg by simp
  show ?thesis using Inr en res sn tg lle by (simp add: row_post_def entry_def)
qed

lemma push_set_Row:
  assumes "rlen dst \<le> length (backing dst)"
  shows "rows_of (set_last_Row (push_Row L dst) r) = rows_of dst @ [r] \<and>
         rlen (set_last_Row (push_Row L dst) r) \<le> length (backing (set_last_Row (push_Row L dst) r))"
  using assms
  by (auto simp: push_Row_def append_Row_def set_last_Row_def rows_of_def take_upd_last
        take_Suc_conv_app_nth)

lemma rows_ok_ext:
  assumes "rows_ok h p dst" "ext h p h' p'"
  shows "rows_ok h' p' dst \<and> map (entry h') (rows_of dst) = map (entry h) (rows_of dst)"
  using assms safe_ext[OF assms(2)] by (auto simp: rows_ok_def entry_def)

lemma loop_post_Nil: "wf_pool h p \<Longrightarrow> rows_ok h p dst \<Longrightarrow> loop_post h p dst dst h p None ([], None)"
  by (simp add: loop_post_def ext_refl)

lemma loop_post_fail:
  assumes wf: "wf_pool h p" and ok: "rows_ok h p dst"
    and rp: "row_post h p r h1 p1 e1 (Inl x)"
  shows "loop_post h p dst (set_last_Row (push_Row L dst) r) h1 p1 (Some (f x)) ([], Some (f x))"
proof -
  let ?d = "set_last_Row (push_Row L dst) r"
  have ps: "rows_of ?d = rows_of dst @ [r]" "rlen ?d \<le> length (backing ?d)"
    using push_set_Row[of dst L r] ok by (simp_all add: rows_ok_def)
  have e: "ext h p h1 p1" "wf_pool h1 p1" "safe h1 p1 (Tags r)" using rp by (simp_all add: row_post_def)
  have "rows_ok h1 p1 ?d" using ps rows_ok_ext[OF ok e(1)] e(3) by (auto simp: rows_ok_def)
  moreover have "rows_of ?d = rows_of dst @ [] @ [r]" using ps by simp
  ultimately show ?thesis using e unfolding loop_post_def by (auto intro!: exI[of _ "[]"] exI[of _ "[r]"])
qed

lemma loop_post_Cons:
  assumes wf: "wf_pool h p" and ok: "rows_ok h p dst"
    and rp: "row_post h p r h1 p1 e1 (Inr en)"
    and rest: "loop_post h1 p1 (set_last_Row (push_Row L dst) r) dst' h' p' e res"
  shows "loop_post h p dst dst' h' p' e (en # fst res, snd res)"
proof -
  let ?d = "set_last_Row (push_Row L dst) r"
  have ps: "rows_of ?d = rows_of dst @ [r]"
    using push_set_Row[of dst L r] ok by (simp add: rows_ok_def)
  have e1: "ext h p h1 p1" "safe h1 p1 (Tags r)" "entry h1 r = en" "off (Tags r) = len p"
    "len p + len (Tags r) = len p1"
    using rp by (simp_all add: row_post_def)
  have e2: "ext h1 p1 h' p'" "wf_pool h' p'" "rows_ok h' p' dst'" "e = snd res"
    using rest by (simp_all add: loop_post_def)
  obtain nrs bad where n: "rows_of dst' = rows_of ?d @ nrs @ bad"
    "length bad = (if e = None then 0 else 1)" "map (entry h') nrs = fst res"
    "chained (len p1) (map Tags nrs)"
    "e = None \<longrightarrow> len p1 + sum_list (map (len \<circ> Tags) nrs) = len p'"
    using rest unfolding loop_post_def by auto
  have ent: "entry h' r = en" using safe_ext[OF e2(1) e1(2)] e1(3) by (simp add: entry_def)
  have c: "cap (Tags r) = len (Tags r)" using e1(2) by (simp add: safe_def)
  have "rows_of dst' = rows_of dst @ (r # nrs) @ bad" using n(1) ps by simp
  moreover have "map (entry h') (r # nrs) = en # fst res" using ent n(3) by simp
  moreover have "chained (len p) (map Tags (r # nrs))" using e1(4,5) c n(4) by simp
  moreover have "e = None \<longrightarrow> len p + sum_list (map (len \<circ> Tags) (r # nrs)) = len p'"
    using n(5) e1(5) by auto
  ultimately have "\<exists>nrs bad. rows_of dst' = rows_of dst @ nrs @ bad \<and>
         length bad = (if e = None then 0 else 1) \<and>
         map (entry h') nrs = en # fst res \<and>
         chained (len p) (map Tags nrs) \<and>
         (e = None \<longrightarrow> len p + sum_list (map (len \<circ> Tags) nrs) = len p')"
    using n(2) by (intro exI[of _ "r # nrs"] exI[of _ bad]) simp
  then show ?thesis using e2 ext_trans[OF e1(1) e2(1)] by (simp add: loop_post_def)
qed

lemma loop_post_one:
  assumes wf: "wf_pool h p" and ok: "rows_ok h p dst"
    and rp: "row_post h p r h1 p1 e1 (Inr en)"
  shows "loop_post h p dst (set_last_Row (push_Row L dst) r) h1 p1 None ([en], None)"
proof -
  let ?d = "set_last_Row (push_Row L dst) r"
  have ps: "rows_of ?d = rows_of dst @ [r]" "rlen ?d \<le> length (backing ?d)"
    using push_set_Row[of dst L r] ok by (simp_all add: rows_ok_def)
  have e: "ext h p h1 p1" "wf_pool h1 p1" "safe h1 p1 (Tags r)" using rp by (simp_all add: row_post_def)
  have ok1: "rows_ok h1 p1 ?d" using ps rows_ok_ext[OF ok e(1)] e(3) by (auto simp: rows_ok_def)
  have "loop_post h1 p1 ?d ?d h1 p1 None ([], None)" using loop_post_Nil[OF e(2) ok1] .
  from loop_post_Cons[OF wf ok rp this] show ?thesis by simp
qed


lemma nonblank_Nil: "nonblank_lines [] = []"
  by (simp add: nonblank_lines_def fields_None)

lemma nonblank_skip: "IndexByte s (CHR 0x0A) = Some 0 \<Longrightarrow> nonblank_lines s = nonblank_lines (drop 1 s)"
  by (simp add: nonblank_lines_def fields_Some)

lemma nonblank_last: "s \<noteq> [] \<Longrightarrow> IndexByte s (CHR 0x0A) = None \<Longrightarrow> nonblank_lines s = [s]"
  by (simp add: nonblank_lines_def fields_None)

lemma nonblank_line:
  "IndexByte s (CHR 0x0A) = Some n \<Longrightarrow> n \<noteq> 0 \<Longrightarrow>
     nonblank_lines s = take n s # nonblank_lines (drop (n + 1) s)"
  using IndexByte_less[of s "CHR 0x0A" n] by (auto simp: nonblank_lines_def fields_Some)

declare opentsdb_unmarshalRows.simps [simp del]

lemma opentsdb_unmarshalRows_post:
  "wf_pool h p \<Longrightarrow> rows_ok h p dst \<Longrightarrow>
     opentsdb_unmarshalRows L dst h s p = (dst', h', p', e) \<Longrightarrow>
     loop_post h p dst dst' h' p' e (line_entries L s)"
proof (induction L dst h s p rule: opentsdb_unmarshalRows.induct)
  case (1 L dst h s p)
  note wf = "1.prems"(1) and ok = "1.prems"(2) and run = "1.prems"(3)
  let ?nl = "CHR 0x0A"
  let ?wrap = "\<lambda>l. map_sum (CannotUnmarshalLine l) id (line_entry L l)"
  show ?case
  proof (cases "s = []")
    case True
    then have "dst' = dst \<and> h' = h \<and> p' = p \<and> e = None"
      using run by (auto simp: opentsdb_unmarshalRows.simps[of L dst h "[]" p])
    then show ?thesis using True loop_post_Nil[OF wf ok]
      by (simp add: line_entries_def nonblank_Nil)
  next
    case ne: False
    show ?thesis
    proof (cases "IndexByte s ?nl = Some 0")
      case True
      have r: "opentsdb_unmarshalRows L dst h (drop 1 s) p = (dst', h', p', e)"
        using run ne True by (simp add: opentsdb_unmarshalRows.simps[of L dst h s p])
      have "loop_post h p dst dst' h' p' e (line_entries L (drop 1 s))"
        using "1.IH"(1)[OF _ True wf ok r] ne by simp
      then show ?thesis using True by (simp add: line_entries_def nonblank_skip)
    next
      case n0: False
      let ?d = "push_Row L dst"
      show ?thesis
      proof (cases "IndexByte s ?nl")
        case None
        obtain r h1 p1 e1 where u: "opentsdb_Row_unmarshal L (last_Row ?d) h s p = (r, h1, p1, e1)"
          by (cases "opentsdb_Row_unmarshal L (last_Row ?d) h s p")
        note rp = opentsdb_Row_unmarshal_post[OF wf u]
        have le: "line_entries L s = collect [?wrap s]"
          using ne None by (simp add: line_entries_def nonblank_last)
        show ?thesis
        proof (cases "line_entry L s")
          case (Inl y)
          then have e1: "e1 = Some y" using rp by (simp add: row_post_def)
          have res: "dst' = set_last_Row ?d r \<and> h' = h1 \<and> p' = p1 \<and>
              e = Some (CannotUnmarshalLine s y)"
            using run ne None u e1 by (auto simp: opentsdb_unmarshalRows.simps[of L dst h s p])
          show ?thesis
            using loop_post_fail[OF wf ok rp[unfolded Inl], of L "CannotUnmarshalLine s"] res Inl le
            by simp
        next
          case (Inr en)
          then have e1: "e1 = None" using rp by (simp add: row_post_def)
          have res: "dst' = set_last_Row ?d r \<and> h' = h1 \<and> p' = p1 \<and> e = None"
            using run ne None u e1 by (auto simp: opentsdb_unmarshalRows.simps[of L dst h s p])
          show ?thesis using loop_post_one[OF wf ok rp[unfolded Inr], of L] res Inr le by simp
        qed
      next
        case (Some n)
        then have nz: "n \<noteq> 0" using n0 by simp
        obtain r h1 p1 e1 where
          u: "opentsdb_Row_unmarshal L (last_Row ?d) h (take n s) p = (r, h1, p1, e1)"
          by (cases "opentsdb_Row_unmarshal L (last_Row ?d) h (take n s) p")
        note rp = opentsdb_Row_unmarshal_post[OF wf u]
        have le: "line_entries L s =
            collect (?wrap (take n s) # map ?wrap (nonblank_lines (drop (n + 1) s)))"
          using Some nz by (simp add: line_entries_def nonblank_line)
        show ?thesis
        proof (cases "line_entry L (take n s)")
          case (Inl y)
          then have e1: "e1 = Some y" using rp by (simp add: row_post_def)
          have res: "dst' = set_last_Row ?d r \<and> h' = h1 \<and> p' = p1 \<and>
              e = Some (CannotUnmarshalLine (take n s) y)"
            using run ne Some n0 u e1 by (auto simp: opentsdb_unmarshalRows.simps[of L dst h s p])
          show ?thesis
            using loop_post_fail[OF wf ok rp[unfolded Inl], of L "CannotUnmarshalLine (take n s)"]
              res Inl le by simp
        next
          case (Inr en)
          then have e1: "e1 = None" using rp by (simp add: row_post_def)
          have r: "opentsdb_unmarshalRows L (set_last_Row ?d r) h1 (drop (n + 1) s) p1 =
              (dst', h', p', e)"
            using run ne Some n0 u e1 by (auto simp: opentsdb_unmarshalRows.simps[of L dst h s p])
          have wf1: "wf_pool h1 p1" using rp by (simp add: row_post_def)
          have ok1: "rows_ok h1 p1 (set_last_Row ?d r)"
            using loop_post_one[OF wf ok rp[unfolded Inr], of L] by (simp add: loop_post_def)
          have ih: "loop_post h1 p1 (set_last_Row ?d r) dst' h' p' e
              (line_entries L (drop (n + 1) s))"
            using "1.IH"(2)[OF _ n0 refl refl Some refl _ _ _ refl e1 wf1 ok1 r] ne u by simp
          show ?thesis using loop_post_Cons[OF wf ok rp[unfolded Inr] ih] Inr le
            by (simp add: line_entries_def)
        qed
      qed
    qed
  qed
qed

lemma arena_ok_empty: "arena_ok empty_Rows empty_heap"
  by (simp add: arena_ok_def empty_Rows_def empty_heap_def wf_pool_def nil_slice_def)

lemma arena_start:
  "arena_ok rs h \<Longrightarrow>
     wf_pool h ((tagsPool rs)\<lparr>len := 0\<rparr>) \<and> rows_ok h ((tagsPool rs)\<lparr>len := 0\<rparr>) ((Rows rs)\<lparr>rlen := 0\<rparr>)"
  by (simp add: arena_ok_def wf_pool_def rows_ok_def rows_of_def)

lemma opentsdb_Unmarshal_post:
  assumes "arena_ok rs h" "opentsdb_Unmarshal L rs h s = (rs', h', e)"
  shows "loop_post h ((tagsPool rs)\<lparr>len := 0\<rparr>) ((Rows rs)\<lparr>rlen := 0\<rparr>) (Rows rs') h' (tagsPool rs') e
           (line_entries L s)"
proof -
  obtain dst' p' where
    u: "opentsdb_unmarshalRows L ((Rows rs)\<lparr>rlen := 0\<rparr>) h s ((tagsPool rs)\<lparr>len := 0\<rparr>) = (dst', h', p', e)"
    and r: "rs' = \<lparr>Rows = dst', tagsPool = p'\<rparr>"
    using assms(2) by (auto simp: opentsdb_Unmarshal_def split: prod.splits)
  show ?thesis using opentsdb_unmarshalRows_post[OF _ _ u] arena_start[OF assms(1)] r by simp
qed



lemma loop_post_arena:
  assumes "loop_post h p dst (Rows rs') h' (tagsPool rs') e res" "rows_of dst = []" "len p = 0"
  shows "arena_ok rs' h'"
    and "e = snd res"
    and "rlen (Rows rs') = length (fst res) + (if e = None then 0 else 1)"
    and "take (length (fst res)) (map (entry h') (rows_of (Rows rs'))) = fst res"
    and "e = None \<Longrightarrow> map (entry h') (rows_of (Rows rs')) = fst res"
    and "e = None \<Longrightarrow> chained 0 (map Tags (rows_of (Rows rs')))"
    and "e = None \<Longrightarrow> sum_list (map (len \<circ> Tags) (rows_of (Rows rs'))) = len (tagsPool rs')"
    and "\<forall>r\<in>set (rows_of (Rows rs')). safe h' (tagsPool rs') (Tags r)"
proof -
  obtain nrs bad where n: "rows_of (Rows rs') = nrs @ bad"
    "length bad = (if e = None then 0 else 1)" "map (entry h') nrs = fst res"
    "chained 0 (map Tags nrs)"
    "e = None \<longrightarrow> sum_list (map (len \<circ> Tags) nrs) = len (tagsPool rs')"
    using assms unfolding loop_post_def by auto
  have ok: "rows_ok h' (tagsPool rs') (Rows rs')" "wf_pool h' (tagsPool rs')"
    using assms(1) by (simp_all add: loop_post_def)
  then have rl: "rlen (Rows rs') = length (rows_of (Rows rs'))"
    by (simp add: rows_ok_def rows_of_def)
  have ln: "length nrs = length (fst res)" using n(3) by (metis length_map)
  show "arena_ok rs' h'" using ok by (simp add: arena_ok_def rows_ok_def)
  show "e = snd res" using assms(1) by (simp add: loop_post_def)
  show "rlen (Rows rs') = length (fst res) + (if e = None then 0 else 1)"
    using rl n(1,2) ln by simp
  show "take (length (fst res)) (map (entry h') (rows_of (Rows rs'))) = fst res"
    using n(1,3) ln by simp
  show "\<forall>r\<in>set (rows_of (Rows rs')). safe h' (tagsPool rs') (Tags r)"
    using ok by (simp add: rows_ok_def)
  assume "e = None"
  then have "bad = []" using n(2) by simp
  then show "map (entry h') (rows_of (Rows rs')) = fst res"
    "chained 0 (map Tags (rows_of (Rows rs')))"
    "sum_list (map (len \<circ> Tags) (rows_of (Rows rs'))) = len (tagsPool rs')"
    using n \<open>e = None\<close> by simp_all
qed

section \<open>The claims\<close>

subsection \<open>Reset\<close>

lemma fold_set_tag_length:
  "length (arrays (fold (\<lambda>i h. set_tag h s i (f h i)) is h) a) = length (arrays h a)"
  by (induction "is" arbitrary: h) (simp_all add: set_tag_def)

lemma reset_tags_length: "length (arrays (reset_tags h s) a) = length (arrays h a)"
  unfolding reset_tags_def by (rule fold_set_tag_length)

text \<open>
  C9. Calling \<^verbatim>\<open>Reset\<close> a second time changes nothing: the arena and the store after two
  calls are those after one. After \<^verbatim>\<open>Reset\<close> the arena shows no row and no tag, and
  both sequences keep their backing arrays and capacities.
\<close>

theorem C9_Reset_idempotent:
  "Reset (fst (Reset rs h)) (snd (Reset rs h)) = Reset rs h \<and>
   rows_of (Rows (fst (Reset rs h))) = [] \<and>
   view (snd (Reset rs h)) (tagsPool (fst (Reset rs h))) = [] \<and>
   length (backing (Rows (fst (Reset rs h)))) = length (backing (Rows rs)) \<and>
   ptr (tagsPool (fst (Reset rs h))) = ptr (tagsPool rs) \<and>
   cap (tagsPool (fst (Reset rs h))) = cap (tagsPool rs) \<and>
   length (arrays (snd (Reset rs h)) (ptr (tagsPool rs))) = length (arrays h (ptr (tagsPool rs)))"
proof -
  have twice: "Reset (fst (Reset rs h)) (snd (Reset rs h)) = Reset rs h"
    by (simp add: Reset_def reset_rows_def reset_tags_def)
  have shown: "rows_of (Rows (fst (Reset rs h))) = []"
    "view (snd (Reset rs h)) (tagsPool (fst (Reset rs h))) = []"
    by (simp_all add: Reset_def reset_rows_def rows_of_def view_def)
  have kept: "length (backing (Rows (fst (Reset rs h)))) = length (backing (Rows rs))"
    "ptr (tagsPool (fst (Reset rs h))) = ptr (tagsPool rs)"
    "cap (tagsPool (fst (Reset rs h))) = cap (tagsPool rs)"
    by (simp_all add: Reset_def reset_rows_def)
  have "length (arrays (snd (Reset rs h)) (ptr (tagsPool rs))) = length (arrays h (ptr (tagsPool rs)))"
    by (simp add: Reset_def reset_tags_length)
  with twice shown kept show ?thesis by simp
qed

lemma SECOND_MASK_bits: "(0x7FFFFFFF00000000 :: 64 word) = push_bit 32 (mask 31)"
  by (simp add: mask_eq_exp_minus_1 push_bit_eq_mult)

lemma masked_small:
  fixes t :: "64 word"
  assumes a: "t AND 0x7FFFFFFF00000000 = 0" and s: "0 \<le> sint t"
  shows "uint t < 2 ^ 32"
proof -
  have nb: "\<not> bit t 63" using s bit_last_iff[of t] by simp
  have hi: "\<not> bit t n" if "32 \<le> n" for n
  proof (cases "n < 63")
    case True
    have "bit (t AND push_bit 32 (mask 31)) n = False" using a by (simp add: SECOND_MASK_bits)
    then show ?thesis using that True by (auto simp add: bit_and_iff bit_push_bit_iff bit_mask_iff)
  next
    case False
    show ?thesis
    proof (cases "n = 63")
      case True then show ?thesis using nb by simp
    next
      case False
      then have "64 \<le> n" using \<open>\<not> n < 63\<close> by simp
      then show ?thesis using bit_imp_le_length[of t n] by auto
    qed
  qed
  have "take_bit 32 t = t"
  proof (rule bit_eqI)
    fix n show "bit (take_bit 32 t) n = bit t n"
    proof (cases "32 \<le> n")
      case True
      then show ?thesis using hi[OF True] by (simp add: bit_take_bit_iff)
    next
      case False
      then show ?thesis by (simp add: bit_take_bit_iff)
    qed
  qed
  then have "uint t = take_bit 32 (uint t)" by (metis unsigned_take_bit_eq)
  then show ?thesis by (metis take_bit_int_less_exp)
qed

lemma masked_times_1000:
  fixes t :: "64 word"
  assumes a: "t AND 0x7FFFFFFF00000000 = 0" and s: "0 \<le> sint t"
  shows "sint (t * 1000) = sint t * 1000"
proof -
  have u: "uint t < 2 ^ 32" using masked_small[OF a s] .
  have u0: "0 \<le> uint t" by simp
  have "signed_take_bit 63 (uint t) = uint t"
  proof (rule signed_take_bit_int_eq_self)
    show "- (2 ^ 63) \<le> uint t" by (rule order_trans[of _ 0]) simp_all
    show "uint t < 2 ^ 63" using u by simp
  qed
  then have st: "sint t = uint t" by (simp add: sint_uint)
  have "sint (t * 1000) = signed_take_bit 63 (sint t * sint (1000 :: 64 word))"
    by (simp add: sint_word_ariths)
  also have "\<dots> = signed_take_bit 63 (uint t * 1000)" by (simp add: st)
  also have "\<dots> = uint t * 1000"
  proof (rule signed_take_bit_int_eq_self)
    show "- (2 ^ 63) \<le> uint t * 1000" by (rule order_trans[of _ 0]) simp_all
    show "uint t * 1000 < 2 ^ 63" using u by simp
  qed
  finally show ?thesis using st by simp
qed


lemma json_Row_Timestamp:
  assumes "GetStringBytes obj ''metric'' = Some m" "Get obj ''timestamp'' = Some rawTs"
    "raw_timestamp L rawTs = Some ts"
  shows "Timestamp (fst (opentsdbhttp_Row_unmarshal L r0 h obj p)) = scale_timestamp ts"
  using assms
  by (simp add: opentsdbhttp_Row_unmarshal_def Row_reset_def Let_def
        split: option.splits prod.splits)

lemma decimal_1000000000: "decimal ''1000000000'' = Some 1000000000"
  by (simp add: decimal_def is_digit_def digits_val_def)

lemma decimal_1577836800_123: "decimal ''1577836800.123'' = Some (1577836800123 / 1000)"
  by (simp add: decimal_def is_digit_def digits_val_def)

subsection \<open>The JSON timestamp\<close>

text \<open>
  C2. In the JSON row parser, when \<^verbatim>\<open>Int64\<close> returns \<open>t\<close> for the \<^verbatim>\<open>timestamp\<close> field, the
  row's \<open>Timestamp\<close> is \<open>t * 1000\<close> if \<open>t AND 0x7FFFFFFF00000000 = 0\<close> and \<open>t\<close> otherwise;
  so 1000000000 is stored as 1000000000000 and 1577836800000 as itself. For a \<open>t\<close> that
  is not negative the product does not wrap around.
\<close>

theorem C2_timestamp_unit:
  assumes "GetStringBytes obj ''metric'' = Some m"
    and "Get obj ''timestamp'' = Some rawTs"
    and "Int64 L rawTs = Some t"
  shows "Timestamp (fst (opentsdbhttp_Row_unmarshal L r0 h obj p)) =
           (if t AND 0x7FFFFFFF00000000 = 0 then t * 1000 else t) \<and>
         (t = 1000000000 \<longrightarrow>
            Timestamp (fst (opentsdbhttp_Row_unmarshal L r0 h obj p)) = 1000000000000) \<and>
         (t = 1577836800000 \<longrightarrow>
            Timestamp (fst (opentsdbhttp_Row_unmarshal L r0 h obj p)) = 1577836800000) \<and>
         (t AND 0x7FFFFFFF00000000 = 0 \<and> 0 \<le> sint t \<longrightarrow>
            sint (Timestamp (fst (opentsdbhttp_Row_unmarshal L r0 h obj p))) = sint t * 1000)"
proof -
  have "raw_timestamp L rawTs = Some t" using assms(3) by (simp add: raw_timestamp_def)
  from json_Row_Timestamp[OF assms(1,2) this]
  have ts: "Timestamp (fst (opentsdbhttp_Row_unmarshal L r0 h obj p)) =
      (if t AND 0x7FFFFFFF00000000 = 0 then t * 1000 else t)"
    by (simp add: scale_timestamp_def SECOND_MASK_def)
  have "sint (t * 1000) = sint t * 1000" if "t AND 0x7FFFFFFF00000000 = 0" "0 \<le> sint t"
    using that by (rule masked_times_1000)
  then show ?thesis unfolding ts by auto
qed

theorem C2_timestamp_unit_witness:
  "GetStringBytes (TypeObject [(''metric'', TypeString ''m''),
       (''timestamp'', TypeNumber ''1000000000'')]) ''metric'' = Some ''m'' \<and>
   Get (TypeObject [(''metric'', TypeString ''m''),
       (''timestamp'', TypeNumber ''1000000000'')]) ''timestamp'' = Some (TypeNumber ''1000000000'') \<and>
   Int64 sample_lib (TypeNumber ''1000000000'') = Some 1000000000 \<and>
   Timestamp (fst (opentsdbhttp_Row_unmarshal sample_lib zero_Row empty_heap
     (TypeObject [(''metric'', TypeString ''m''), (''timestamp'', TypeNumber ''1000000000'')])
     nil_slice)) = 1000000000000"
proof -
  let ?obj = "TypeObject [(''metric'', TypeString ''m''), (''timestamp'', TypeNumber ''1000000000'')]"
  have a: "GetStringBytes ?obj ''metric'' = Some ''m''"
    by (simp add: GetStringBytes_def Get_def StringBytes_def)
  have b: "Get ?obj ''timestamp'' = Some (TypeNumber ''1000000000'')"
    by (simp add: Get_def)
  have c: "Int64 sample_lib (TypeNumber ''1000000000'') = Some 1000000000"
    by (simp add: Int64_def sample_lib_def decimal_1000000000 trunc64_def)
  from C2_timestamp_unit[OF a b c, of zero_Row empty_heap nil_slice] a b c
  show ?thesis by simp
qed

lemma decimal_1_5: "decimal ''1.5'' = Some (3 / 2)"
  by (simp add: decimal_def is_digit_def digits_val_def)

lemma decimal_42_5: "decimal ''42.5'' = Some (85 / 2)"
  by (simp add: decimal_def is_digit_def digits_val_def)

lemma sample_object_fields:
  "GetStringBytes (sample_object ts) ''metric'' = Some ''sys.cpu''"
  "Get (sample_object ts) ''timestamp'' = Some (TypeNumber ts)"
  "Get (sample_object ts) ''value'' = Some (TypeNumber ''42.5'')"
  "Float64 sample_lib (TypeNumber ''42.5'') = Some (85 / 2)"
  "GetObject (sample_object ts) ''tags'' =
     Some [(''host'', TypeString ''web01''), (''dc'', TypeString ''us'')]"
  by (simp_all add: sample_object_def GetStringBytes_def Get_def StringBytes_def GetObject_def
        Float64_def sample_lib_def decimal_42_5)

lemma wf_pool_empty: "wf_pool empty_heap nil_slice"
  by (simp add: wf_pool_def empty_heap_def nil_slice_def)

text \<open>
  C3, as the code has it. In the JSON row parser, when \<^verbatim>\<open>Int64\<close> fails on the
  \<^verbatim>\<open>timestamp\<close> field and \<^verbatim>\<open>Float64\<close> returns the float \<open>tsF\<close>, the timestamp is
  \<^verbatim>\<open>int64(tsF * 1000)\<close>, and this product then goes through the same test against the mask
  as an integer timestamp does: it is multiplied by 1000 once more when none of its bits
  32 to 62 is set, and stored as it is otherwise. So the product 1577836800123 (of
  1577836800.123) is stored as 1577836800123, and the product 1500 (of 1.5) is stored as
  1500000.
\<close>

theorem C3_fractional_timestamp:
  assumes "GetStringBytes obj ''metric'' = Some m"
    and "Get obj ''timestamp'' = Some rawTs"
    and "Int64 L rawTs = None"
    and "Float64 L rawTs = Some tsF"
  shows "Timestamp (fst (opentsdbhttp_Row_unmarshal L r0 h obj p)) =
           (if toInt64 L (mul1000 L tsF) AND 0x7FFFFFFF00000000 = 0
            then toInt64 L (mul1000 L tsF) * 1000
            else toInt64 L (mul1000 L tsF)) \<and>
         (toInt64 L (mul1000 L tsF) = 1577836800123 \<longrightarrow>
            Timestamp (fst (opentsdbhttp_Row_unmarshal L r0 h obj p)) = 1577836800123) \<and>
         (toInt64 L (mul1000 L tsF) = 1500 \<longrightarrow>
            Timestamp (fst (opentsdbhttp_Row_unmarshal L r0 h obj p)) = 1500000)"
proof -
  have "raw_timestamp L rawTs = Some (toInt64 L (mul1000 L tsF))"
    using assms(3,4) by (simp add: raw_timestamp_def)
  from json_Row_Timestamp[OF assms(1,2) this]
  have ts: "Timestamp (fst (opentsdbhttp_Row_unmarshal L r0 h obj p)) =
           (if toInt64 L (mul1000 L tsF) AND 0x7FFFFFFF00000000 = 0
            then toInt64 L (mul1000 L tsF) * 1000
            else toInt64 L (mul1000 L tsF))"
    by (simp add: scale_timestamp_def SECOND_MASK_def)
  show ?thesis unfolding ts by simp
qed

theorem C3_fractional_timestamp_witness:
  "Int64 sample_lib (TypeNumber ''1577836800.123'') = None \<and>
   Float64 sample_lib (TypeNumber ''1577836800.123'') = Some (1577836800123 / 1000) \<and>
   toInt64 sample_lib (mul1000 sample_lib (1577836800123 / 1000)) = 1577836800123 \<and>
   (case opentsdbhttp_Row_unmarshal sample_lib zero_Row empty_heap
           (sample_object ''1577836800.123'') nil_slice of
      (r, h', p', e) \<Rightarrow> e = None \<and> Timestamp r = 1577836800123)"
proof -
  let ?obj = "sample_object ''1577836800.123''"
  have c: "Int64 sample_lib (TypeNumber ''1577836800.123'') = None"
    by (simp add: Int64_def sample_lib_def)
  have d: "Float64 sample_lib (TypeNumber ''1577836800.123'') = Some (1577836800123 / 1000)"
    by (simp add: Float64_def sample_lib_def decimal_1577836800_123)
  have e: "toInt64 sample_lib (mul1000 sample_lib (1577836800123 / 1000)) = 1577836800123"
    by (simp add: sample_lib_def trunc64_def)
  obtain r h' p' x where
    run: "opentsdbhttp_Row_unmarshal sample_lib (zero_Row :: rat Row) empty_heap ?obj nil_slice =
            (r, h', p', x)"
    by (cases "opentsdbhttp_Row_unmarshal sample_lib (zero_Row :: rat Row) empty_heap ?obj nil_slice")
  have "json_entry sample_lib ?obj =
      Inr (''sys.cpu'', scale_timestamp 1577836800123, 85 / 2,
           string_tags [(''host'', TypeString ''web01''), (''dc'', TypeString ''us'')])"
    by (simp add: json_entry_def sample_object_fields raw_timestamp_def c d e)
  with opentsdbhttp_Row_unmarshal_post[OF wf_pool_empty run]
  have ok: "x = None" by (simp add: row_post_def)
  from C3_fractional_timestamp[OF sample_object_fields(1,2) c d,
      of zero_Row empty_heap nil_slice] e run
  have "Timestamp r = 1577836800123" by simp
  with ok c d e run show ?thesis by simp
qed

text \<open>
  The claim as the spec states it says that the multiplication by 1000 is not made a second
  time on the float path. In the sample world the row with the timestamp 1.5 parses, the
  product is 1500, and 1500000 is stored.
\<close>

theorem C3_counterexample:
  "Int64 sample_lib (TypeNumber ''1.5'') = None \<and>
   Float64 sample_lib (TypeNumber ''1.5'') = Some (3 / 2) \<and>
   toInt64 sample_lib (mul1000 sample_lib (3 / 2)) = 1500 \<and>
   snd (snd (snd (opentsdbhttp_Row_unmarshal sample_lib (zero_Row :: rat Row) empty_heap
      (sample_object ''1.5'') nil_slice))) = None \<and>
   Timestamp (fst (opentsdbhttp_Row_unmarshal sample_lib (zero_Row :: rat Row) empty_heap
      (sample_object ''1.5'') nil_slice)) = 1500000 \<and>
   (1500000 :: int64) \<noteq> 1500"
proof -
  let ?obj = "sample_object ''1.5''"
  have c: "Int64 sample_lib (TypeNumber ''1.5'') = None"
    by (simp add: Int64_def sample_lib_def)
  have d: "Float64 sample_lib (TypeNumber ''1.5'') = Some (3 / 2)"
    by (simp add: Float64_def sample_lib_def decimal_1_5)
  have e: "toInt64 sample_lib (mul1000 sample_lib (3 / 2)) = 1500"
    by (simp add: sample_lib_def trunc64_def)
  have rt: "raw_timestamp sample_lib (TypeNumber ''1.5'') = Some 1500"
    by (simp add: raw_timestamp_def c d e)
  have sc: "scale_timestamp 1500 = 1500000"
    by (simp add: scale_timestamp_def SECOND_MASK_def)
  obtain r h' p' x where
    run: "opentsdbhttp_Row_unmarshal sample_lib (zero_Row :: rat Row) empty_heap ?obj nil_slice =
            (r, h', p', x)"
    by (cases "opentsdbhttp_Row_unmarshal sample_lib (zero_Row :: rat Row) empty_heap ?obj nil_slice")
  have "json_entry sample_lib ?obj =
      Inr (''sys.cpu'', scale_timestamp 1500, 85 / 2,
           string_tags [(''host'', TypeString ''web01''), (''dc'', TypeString ''us'')])"
    by (simp add: json_entry_def sample_object_fields rt)
  with opentsdbhttp_Row_unmarshal_post[OF wf_pool_empty run]
  have ok: "x = None" by (simp add: row_post_def)
  have "Timestamp r = 1500000"
    using json_Row_Timestamp[OF sample_object_fields(1,2) rt, of zero_Row empty_heap nil_slice]
      run sc by simp
  with ok c d e run show ?thesis by simp
qed

subsection \<open>Tags of a JSON row\<close>

text \<open>
  C8. In the JSON parser, for every \<^verbatim>\<open>tags\<close> object, \<^verbatim>\<open>unmarshalTags\<close> appends to the pool
  exactly the entries whose value is a string, in order, and nothing for any other entry;
  the function has no error result. A row whose other fields are valid is parsed without
  error and its \<open>Tags\<close> view holds exactly those string-valued entries.
\<close>

theorem C8_nonstring_tags_dropped:
  assumes "wf_pool h p"
    and "GetStringBytes obj ''metric'' = Some m"
    and "Get obj ''timestamp'' = Some rawTs" and "raw_timestamp L rawTs = Some ts"
    and "Get obj ''value'' = Some rawV" and "Float64 L rawV = Some v"
    and "GetObject obj ''tags'' = Some kvs"
  shows "(case opentsdbhttp_unmarshalTags L h p kvs of
            (h', p') \<Rightarrow> view h' p' = view h p @ string_tags kvs) \<and>
         (case opentsdbhttp_Row_unmarshal L r0 h obj p of
            (r, h', p', e) \<Rightarrow> e = None \<and> view h' (Tags r) = string_tags kvs)"
proof -
  obtain h1 p1 where u: "opentsdbhttp_unmarshalTags L h p kvs = (h1, p1)"
    by (cases "opentsdbhttp_unmarshalTags L h p kvs")
  obtain r h' p' e where run: "opentsdbhttp_Row_unmarshal L r0 h obj p = (r, h', p', e)"
    by (cases "opentsdbhttp_Row_unmarshal L r0 h obj p")
  have je: "json_entry L obj = Inr (m, scale_timestamp ts, v, string_tags kvs)"
    using assms(2-7) by (simp add: json_entry_def)
  from opentsdbhttp_Row_unmarshal_post[OF assms(1) run]
  have "e = None \<and> view h' (Tags r) = string_tags kvs"
    by (simp add: row_post_def je entry_def)
  then show ?thesis using opentsdbhttp_unmarshalTags_ext[OF assms(1) u] u run by simp
qed

theorem C8_nonstring_tags_dropped_witness:
  "wf_pool empty_heap nil_slice \<and>
   (case opentsdbhttp_Row_unmarshal sample_lib zero_Row empty_heap
      (TypeObject [(''metric'', TypeString ''sys.cpu''), (''timestamp'', TypeNumber ''1000000000''),
         (''value'', TypeNumber ''1000000000''),
         (''tags'', TypeObject [(''host'', TypeString ''web01''), (''n'', TypeNumber ''1''),
            (''ok'', TypeTrue), (''dc'', TypeString ''us'')])]) nil_slice of
      (r, h', p', e) \<Rightarrow> e = None \<and>
        view h' (Tags r) = [\<lparr>Key = ''host'', Val = ''web01''\<rparr>, \<lparr>Key = ''dc'', Val = ''us''\<rparr>])"
proof -
  let ?tags = "[(''host'', TypeString ''web01''), (''n'', TypeNumber ''1''),
            (''ok'', TypeTrue), (''dc'', TypeString ''us'')]"
  let ?obj = "TypeObject [(''metric'', TypeString ''sys.cpu''), (''timestamp'', TypeNumber ''1000000000''),
         (''value'', TypeNumber ''1000000000''), (''tags'', TypeObject ?tags)]"
  have wf: "wf_pool empty_heap nil_slice"
    by (simp add: wf_pool_def empty_heap_def nil_slice_def)
  have a: "GetStringBytes ?obj ''metric'' = Some ''sys.cpu''"
    by (simp add: GetStringBytes_def Get_def StringBytes_def)
  have b: "Get ?obj ''timestamp'' = Some (TypeNumber ''1000000000'')" by (simp add: Get_def)
  have c: "raw_timestamp sample_lib (TypeNumber ''1000000000'') = Some 1000000000"
    by (simp add: raw_timestamp_def Int64_def sample_lib_def decimal_1000000000 trunc64_def)
  have d: "Get ?obj ''value'' = Some (TypeNumber ''1000000000'')" by (simp add: Get_def)
  have e: "Float64 sample_lib (TypeNumber ''1000000000'') = Some 1000000000"
    by (simp add: Float64_def sample_lib_def decimal_1000000000)
  have f: "GetObject ?obj ''tags'' = Some ?tags" by (simp add: GetObject_def Get_def)
  from C8_nonstring_tags_dropped[OF wf a b c d e f, of zero_Row] wf
  show ?thesis by (simp split: prod.splits)
qed

lemma sint_succ:
  fixes m :: int64
  assumes "sint m < 2 ^ 63 - 1"
  shows "sint (m + 1) = sint m + 1"
proof -
  have lo: "- (2 ^ 63) \<le> sint m" using sint_greater_eq[of m] by simp
  have "sint (m + 1) = signed_take_bit 63 (sint m + sint (1 :: int64))"
    by (simp add: sint_word_ariths)
  also have "\<dots> = signed_take_bit 63 (sint m + 1)" by simp
  also have "\<dots> = sint m + 1"
  proof (rule signed_take_bit_int_eq_self)
    show "- (2 ^ 63) \<le> sint m + 1" using lo by simp
    show "sint m + 1 < 2 ^ 63" using assms by simp
  qed
  finally show ?thesis .
qed

lemma sint_of_nat_int64:
  assumes "k < 2 ^ 63"
  shows "sint (of_nat k :: int64) = int k"
proof -
  have "sint (of_nat k :: int64) = signed_take_bit 63 (int k)"
    by (simp add: signed_of_nat)
  also have "\<dots> = int k"
  proof (rule signed_take_bit_int_eq_self)
    show "- (2 ^ 63) \<le> int k" by (rule order_trans[of _ 0]) simp_all
    show "int k < 2 ^ 63" using assms by (metis of_nat_less_iff of_nat_numeral of_nat_power)
  qed
  finally show ?thesis .
qed

lemma ReadFrom_LimitReader_oversize:
  assumes big: "sint maxSize < int (length (pending r))" and fit: "length (pending r) < 2 ^ 63"
  shows "ReadFrom_LimitReader B r (maxSize + 1) =
           (B @ take (nat (sint maxSize + 1)) (pending r),
            r\<lparr>pending := drop (nat (sint maxSize + 1)) (pending r)\<rparr>,
            of_nat (nat (sint maxSize + 1)), None) \<and>
         maxSize <s (of_nat (nat (sint maxSize + 1)) :: int64)"
proof -
  have "int (length (pending r)) < 2 ^ 63"
    using fit by (metis of_nat_less_iff of_nat_numeral of_nat_power)
  then have m: "sint maxSize < 2 ^ 63 - 1" using big by simp
  have s1: "sint (maxSize + 1) = sint maxSize + 1" using m by (rule sint_succ)
  let ?k = "nat (sint maxSize + 1)"
  have k: "min (length (pending r)) ?k = ?k" using big by simp
  have kf: "?k < 2 ^ 63" using m by (simp add: nat_less_iff)
  have sk: "sint (of_nat ?k :: int64) = int ?k" using kf by (rule sint_of_nat_int64)
  have "\<not> int ?k < sint maxSize + 1" by simp
  then have r: "ReadFrom_LimitReader B r (maxSize + 1) =
           (B @ take ?k (pending r), r\<lparr>pending := drop ?k (pending r)\<rparr>, of_nat ?k, None)"
    unfolding ReadFrom_LimitReader_def Let_def s1 k by simp
  have "sint maxSize < int ?k" by simp
  then have "maxSize <s (of_nat ?k :: int64)" by (simp add: word_sless_alt sk)
  with r show ?thesis by simp
qed


lemma pushCtx_Read_oversize:
  assumes "ctx_err (ctx w) = None"
    and "sint maxSize < int (length (pending r))" and "length (pending r) < 2 ^ 63"
  shows "pushCtx_Read L w r maxSize =
           (False,
            w\<lparr>ctx := (ctx w)\<lparr>reqBuf := reqBuf (ctx w) @ take (nat (sint maxSize + 1)) (pending r),
                             ctx_err := Some (TooBigRequest maxSize)\<rparr>,
              opentsdbReadErrors := opentsdbReadErrors w + 1\<rparr>,
            r\<lparr>pending := drop (nat (sint maxSize + 1)) (pending r)\<rparr>)"
  using ReadFrom_LimitReader_oversize[OF assms(2,3), of "reqBuf (ctx w)"] assms(1)
  by (simp add: pushCtx_Read_def)

lemma read_insert_loop_stop:
  "pushCtx_Read L w r maxSize = (False, w1, r1) \<Longrightarrow>
     read_insert_loop L w r maxSize = Some (w1, pushCtx_Error (ctx w1))"
  by (subst read_insert_loop.simps) simp

subsection \<open>The size limit\<close>

text \<open>
  C6. Take a request whose body (after the gzip reader, when the request declares one)
  still delivers more than \<open>maxSize\<close> bytes, run in a context with no error recorded.
  \<^verbatim>\<open>Read\<close> then returns false, having taken \<open>maxSize + 1\<close> bytes from the body (one byte
  beyond the limit; none when \<open>maxSize\<close> is negative) and recorded the error "too big packed
  request" and one read error in the counter. The handler returns that error, and neither
  the storage nor the counter of inserted rows has changed. The byte count of a body is an
  int64 in the code, hence the bound on the length.
\<close>

theorem C6_oversize_request:
  assumes "ctx_err (ctx w) = None"
    and "(if Content_Encoding req = ''gzip'' then NewGzipReader L (Body req)
          else Inr (Body req)) = Inr r"
    and "sint maxSize < int (length (pending r))"
    and "length (pending r) < 2 ^ 63"
  shows "(case pushCtx_Read L w r maxSize of
            (ok, w', r') \<Rightarrow>
              \<not> ok \<and> ctx_err (ctx w') = Some (TooBigRequest maxSize) \<and>
              reqBuf (ctx w') = reqBuf (ctx w) @ take (nat (sint maxSize + 1)) (pending r) \<and>
              pending r' = drop (nat (sint maxSize + 1)) (pending r) \<and>
              opentsdbReadErrors w' = opentsdbReadErrors w + 1) \<and>
         (case insertHandlerInternal L w req maxSize of
            None \<Rightarrow> False
          | Some (w', e) \<Rightarrow>
              e = Some (TooBigRequest maxSize) \<and> storage w' = storage w \<and>
              rowsInserted w' = rowsInserted w \<and> rowsPerInsert w' = rowsPerInsert w)"
proof -
  let ?w = "w\<lparr>opentsdbReadCalls := opentsdbReadCalls w + 1\<rparr>"
  have e: "ctx_err (ctx ?w) = None" using assms(1) by simp
  note r0 = pushCtx_Read_oversize[OF assms(1,3,4), of L]
  note r1 = pushCtx_Read_oversize[OF e assms(3,4), of L]
  note loop = read_insert_loop_stop[OF r1]
  have "insertHandlerInternal L w req maxSize =
      Some (pushCtx_reset (?w\<lparr>ctx := (ctx ?w)\<lparr>reqBuf := reqBuf (ctx ?w) @ take (nat (sint maxSize + 1)) (pending r),
                             ctx_err := Some (TooBigRequest maxSize)\<rparr>,
              opentsdbReadErrors := opentsdbReadErrors ?w + 1\<rparr>), Some (TooBigRequest maxSize))"
    unfolding insertHandlerInternal_def Let_def assms(2) sum.case loop by (simp add: pushCtx_Error_def)
  then show ?thesis using r0 by (simp add: pushCtx_reset_def split: prod.splits)
qed

theorem C6_oversize_request_witness:
  "ctx_err (ctx (empty_world :: rat world)) = None \<and>
   sint (3 :: int64) < int (length (pending \<lparr>pending = ''01234567'', failure = None\<rparr>)) \<and>
   (case pushCtx_Read sample_lib empty_world \<lparr>pending = ''01234567'', failure = None\<rparr> 3 of
      (ok, w', r') \<Rightarrow> \<not> ok \<and> ctx_err (ctx w') = Some (TooBigRequest 3) \<and>
         reqBuf (ctx w') = ''0123'' \<and> pending r' = ''4567'') \<and>
   (case insertHandlerInternal sample_lib empty_world
        \<lparr>Content_Encoding = [], Body = \<lparr>pending = ''01234567'', failure = None\<rparr>\<rparr> 3 of
      None \<Rightarrow> False
    | Some (w', e) \<Rightarrow> e = Some (TooBigRequest 3) \<and> storage w' = [] \<and> rowsInserted w' = 0)"
proof -
  let ?r = "\<lparr>pending = ''01234567'', failure = None\<rparr>"
  let ?req = "\<lparr>Content_Encoding = [], Body = ?r\<rparr>"
  have a: "ctx_err (ctx (empty_world :: rat world)) = None" by (simp add: empty_world_def)
  have b: "(if Content_Encoding ?req = ''gzip'' then NewGzipReader sample_lib (Body ?req)
          else Inr (Body ?req)) = Inr ?r" by simp
  have c: "sint (3 :: int64) < int (length (pending ?r))" by simp
  have d: "length (pending ?r) < 2 ^ 63" by simp
  have n: "nat (sint (3 :: int64) + 1) = 4" by simp
  from C6_oversize_request[OF a b c d] a c n
  show ?thesis by (simp add: empty_world_def split: prod.splits option.splits)
qed

lemma sample_line_entries:
  "line_entries L sample_line =
     ([(''sys.cpu'', toInt64 L (ParseBestEffort L ''1577836800''), ParseBestEffort L ''42.5'',
        [\<lparr>Key = ''host'', Val = ''web01''\<rparr>, \<lparr>Key = ''dc'', Val = ''us''\<rparr>])], None)"
  by (simp add: line_entries_def nonblank_lines_def sample_line_def fields.simps line_entry_def
        HasPrefix_def tag_of_def)

lemma decimal_1577836800: "decimal ''1577836800'' = Some 1577836800"
  by (simp add: decimal_def is_digit_def digits_val_def)

lemma sample_lib_tokens:
  "toInt64 sample_lib (ParseBestEffort sample_lib ''1577836800'') = 1577836800"
  "ParseBestEffort sample_lib ''42.5'' = 85 / 2"
  by (simp_all add: sample_lib_def decimal_1577836800 decimal_42_5 trunc64_def)

lemma opentsdb_Unmarshal_entries:
  assumes "arena_ok rs h" "opentsdb_Unmarshal L rs h s = (rs', h', e)"
  shows "e = snd (line_entries L s)"
    and "e = None \<Longrightarrow> map (entry h') (rows_of (Rows rs')) = fst (line_entries L s)"
    and "rlen (Rows rs') = length (fst (line_entries L s)) + (if e = None then 0 else 1)"
    and "arena_ok rs' h'"
proof -
  note p = opentsdb_Unmarshal_post[OF assms]
  have z: "rows_of ((Rows rs)\<lparr>rlen := 0\<rparr>) = []" "len ((tagsPool rs)\<lparr>len := 0\<rparr>) = 0"
    by (simp_all add: rows_of_def)
  show "e = snd (line_entries L s)" by (rule loop_post_arena(2)[OF p z])
  show "rlen (Rows rs') = length (fst (line_entries L s)) + (if e = None then 0 else 1)"
    by (rule loop_post_arena(3)[OF p z])
  show "arena_ok rs' h'" by (rule loop_post_arena(1)[OF p z])
  assume "e = None"
  then show "map (entry h') (rows_of (Rows rs')) = fst (line_entries L s)"
    by (rule loop_post_arena(5)[OF p z])
qed

subsection \<open>A line of the line format\<close>

text \<open>
  C1, as the code has it. From any well-formed arena, \<^verbatim>\<open>Unmarshal\<close> of the line
  \<^verbatim>\<open>put sys.cpu 1577836800 42.5 host=web01 dc=us\<close> with its newline succeeds and leaves
  exactly one row: metric \<open>sys.cpu\<close>, the timestamp token parsed and converted to int64 as
  it stands (nothing multiplies it by 1000), the value token parsed, and the tags
  \<open>host=web01\<close> and \<open>dc=us\<close> in that order.
\<close>

theorem C1_line_example:
  assumes "arena_ok rs h"
  shows "case opentsdb_Unmarshal L rs h sample_line of
           (rs', h', e) \<Rightarrow>
             e = None \<and>
             map (entry h') (rows_of (Rows rs')) =
               [(''sys.cpu'', toInt64 L (ParseBestEffort L ''1577836800''),
                 ParseBestEffort L ''42.5'',
                 [\<lparr>Key = ''host'', Val = ''web01''\<rparr>, \<lparr>Key = ''dc'', Val = ''us''\<rparr>])]"
proof -
  obtain rs' h' e where u: "opentsdb_Unmarshal L rs h sample_line = (rs', h', e)"
    by (cases "opentsdb_Unmarshal L rs h sample_line")
  have e: "e = None" using opentsdb_Unmarshal_entries(1)[OF assms u] by (simp add: sample_line_entries)
  show ?thesis using opentsdb_Unmarshal_entries(2)[OF assms u e] e u
    by (simp add: sample_line_entries)
qed

theorem C1_line_example_witness:
  "arena_ok (empty_Rows :: rat Rows) empty_heap \<and>
   (case opentsdb_Unmarshal sample_lib empty_Rows empty_heap sample_line of
      (rs', h', e) \<Rightarrow>
        e = None \<and>
        map (entry h') (rows_of (Rows rs')) =
          [(''sys.cpu'', 1577836800, 85 / 2,
            [\<lparr>Key = ''host'', Val = ''web01''\<rparr>, \<lparr>Key = ''dc'', Val = ''us''\<rparr>])])"
  using C1_line_example[OF arena_ok_empty, of sample_lib] arena_ok_empty
  by (simp add: sample_lib_tokens split: prod.splits)

text \<open>
  The claim as the spec states it asks for the timestamp 1577836800000; in the sample
  world the parser stores 1577836800.
\<close>

theorem C1_counterexample:
  "map Timestamp (rows_of (Rows (fst (opentsdb_Unmarshal sample_lib empty_Rows empty_heap
      sample_line)))) = [1577836800] \<and>
   (1577836800 :: int64) \<noteq> 1577836800000"
proof -
  obtain rs' h' e where u: "opentsdb_Unmarshal sample_lib (empty_Rows :: rat Rows) empty_heap sample_line = (rs', h', e)"
    by (cases "opentsdb_Unmarshal sample_lib (empty_Rows :: rat Rows) empty_heap sample_line")
  have e: "e = None"
    using opentsdb_Unmarshal_entries(1)[OF arena_ok_empty u] by (simp add: sample_line_entries)
  have "map (entry h') (rows_of (Rows rs')) =
      [(''sys.cpu'', 1577836800, 85 / 2,
            [\<lparr>Key = ''host'', Val = ''web01''\<rparr>, \<lparr>Key = ''dc'', Val = ''us''\<rparr>])]"
    using opentsdb_Unmarshal_entries(2)[OF arena_ok_empty u e]
    by (simp add: sample_line_entries sample_lib_tokens)
  then have "map (fst \<circ> snd) (map (entry h') (rows_of (Rows rs'))) = [1577836800]" by simp
  then have "map Timestamp (rows_of (Rows rs')) = [1577836800]"
    by (simp add: entry_def comp_def)
  then show ?thesis using u by simp
qed








subsection \<open>Unmarshal and the rows already in the arena\<close>




end
